theory Spec2Isabelle
  imports Main
begin

section \<open>The keep-alive component cache (src/core/components/keep-alive.ts)\<close>

text \<open>
  The component keeps an object \<open>cache\<close> from keys to cache entries, an array \<open>keys\<close> that
  is the recency order (head least recently used), and a candidate held aside in
  \<open>vnodeToCache\<close>/\<open>keyToCache\<close> until \<open>cacheVNode\<close> admits it. The model passes the
  component's fields as a record. A call of \<open>$destroy()\<close> on a component instance is an
  effect on the host: it is recorded by appending the instance to \<open>destroyed_log\<close>.
  A call of \<open>test\<close> on a regular expression with the global or sticky flag is an effect
  on that object: it is recorded in \<open>lastIndex\<close>, which holds the \<open>lastIndex\<close> property of
  every RegExp object.
  Reading \<open>componentInstance.$destroy\<close> of an undefined instance, or \<open>data.keepAlive\<close> of
  an undefined \<open>data\<close>, raises a TypeError in JavaScript; the model returns \<open>Inl TypeError\<close>
  there and does not describe the fields after the exception.
\<close>

subsection \<open>JavaScript values\<close>

datatype error = TypeError

text \<open>A component instance is known by its identity only.\<close>

type_synonym Component = nat

text \<open>Truthiness of a value of type \<open>string | null | undefined\<close>: the empty string is falsy.\<close>

definition truthy :: "string option \<Rightarrow> bool" where
  "truthy v = (case v of None \<Rightarrow> False | Some s \<Rightarrow> s \<noteq> [])"

text \<open>\<open>String.prototype.split\<close> with a one-character separator: \<open>''''.split('','')\<close> is \<open>['''']\<close>.\<close>

fun split_on :: "char \<Rightarrow> string \<Rightarrow> string list" where
  "split_on c [] = [[]]"
| "split_on c (x # xs) =
     (if x = c then [] # split_on c xs
      else (case split_on c xs of [] \<Rightarrow> [[x]] | y # ys \<Rightarrow> (x # y) # ys))"

text \<open>The decimal numeral of a number, as \<open>cid + ''''\<close> produces it.\<close>

definition digit_char :: "nat \<Rightarrow> char" where
  "digit_char d = ''0123456789'' ! d"

fun string_of_nat :: "nat \<Rightarrow> string" where
  "string_of_nat n =
     (if n < 10 then [digit_char n] else string_of_nat (n div 10) @ [digit_char (n mod 10)])"

declare string_of_nat.simps [simp del]

subsection \<open>The props \<open>include\<close>, \<open>exclude\<close> and \<open>max\<close>\<close>

text \<open>
  A regular expression is an object. Its pattern and flags are fixed: \<open>re_global_or_sticky\<close>
  says whether the flags contain \<open>g\<close> or \<open>y\<close>, and \<open>re_match r i str\<close> is what the matcher of
  the pattern finds in \<open>str\<close> when started at the index \<open>i\<close>: the end index of the match,
  or \<open>None\<close> when there is none. Its \<open>lastIndex\<close> property is state; \<open>re_object\<close> is
  the identity of the object, under which the state is kept, so that two props may refer
  to one object.
\<close>

record RegExp =
  re_object :: nat
  re_global_or_sticky :: bool
  re_match :: "nat \<Rightarrow> string \<Rightarrow> nat option"

type_synonym LastIndex = "nat \<Rightarrow> nat"

text \<open>
  \<open>RegExp.prototype.test\<close>. Without the flags \<open>g\<close> and \<open>y\<close> the search starts at index 0 and
  \<open>lastIndex\<close> is left alone. With one of them the search starts at \<open>lastIndex\<close>; when
  \<open>lastIndex\<close> is beyond the end of the string or nothing matches, the result is \<open>false\<close>
  and \<open>lastIndex\<close> is set to 0; otherwise \<open>lastIndex\<close> is set to the end of the match.
\<close>

definition regexp_test :: "RegExp \<Rightarrow> string \<Rightarrow> LastIndex \<Rightarrow> bool \<times> LastIndex" where
  "regexp_test r str h =
     (if re_global_or_sticky r then
        (if length str < h (re_object r) then (False, h(re_object r := 0))
         else (case re_match r (h (re_object r)) str of
                 None \<Rightarrow> (False, h(re_object r := 0))
               | Some e \<Rightarrow> (True, h(re_object r := e))))
      else (re_match r 0 str \<noteq> None, h))"

text \<open>
  \<open>patternTypes = [String, RegExp, Array]\<close>: a prop is a string, a regular expression, an
  array of strings, or undefined when the host does not pass it.
\<close>

datatype pattern = PUndefined | PString string | PRegExp RegExp | PArray "string list"

fun truthy_pattern :: "pattern \<Rightarrow> bool" where
  "truthy_pattern PUndefined = False"
| "truthy_pattern (PString s) = (s \<noteq> [])"
| "truthy_pattern (PRegExp r) = True"
| "truthy_pattern (PArray xs) = True"

text \<open>
  \<open>matches\<close> returns its result and the \<open>lastIndex\<close> values after the call. A value that
  is neither array, string nor regular expression reaches the last line, \<open>return false\<close>.
\<close>

fun matches :: "pattern \<Rightarrow> string \<Rightarrow> LastIndex \<Rightarrow> bool \<times> LastIndex" where
  "matches (PArray xs) n h = (n \<in> set xs, h)"
| "matches (PString s) n h = (n \<in> set (split_on CHR '','' s), h)"
| "matches (PRegExp r) n h = regexp_test r n h"
| "matches PUndefined n h = (False, h)"

text \<open>
  \<open>max: [String, Number]\<close>. Of the numbers only the integers are modelled (no fractions,
  NaN or infinities), and \<open>parseInt\<close> of such a number is the number itself (as it is for
  the integers that JavaScript prints without an exponent). \<open>parseInt\<close> of a string skips
  leading ASCII white space, reads a sign, an optional \<open>0x\<close> prefix, and the longest prefix
  of digits of the radix; no digit at all gives NaN, here \<open>None\<close>.
\<close>

datatype maxprop = MaxUndefined | MaxNumber int | MaxString string

fun truthy_max :: "maxprop \<Rightarrow> bool" where
  "truthy_max MaxUndefined = False"
| "truthy_max (MaxNumber n) = (n \<noteq> 0)"
| "truthy_max (MaxString s) = (s \<noteq> [])"

definition is_white_space :: "char \<Rightarrow> bool" where
  "is_white_space c =
     (c = CHR '' '' \<or> c = CHR 0x09 \<or> c = CHR 0x0A \<or> c = CHR 0x0B \<or> c = CHR 0x0C \<or> c = CHR 0x0D)"

definition index_of :: "char \<Rightarrow> string \<Rightarrow> nat option" where
  "index_of c s = (if c \<in> set s then Some (length (takeWhile (\<lambda>x. x \<noteq> c) s)) else None)"

definition digit_value :: "char \<Rightarrow> nat option" where
  "digit_value c =
     (case index_of c ''0123456789abcdef'' of Some d \<Rightarrow> Some d
      | None \<Rightarrow> (case index_of c ''ABCDEF'' of Some d \<Rightarrow> Some (10 + d) | None \<Rightarrow> None))"

definition is_digit_in :: "nat \<Rightarrow> char \<Rightarrow> bool" where
  "is_digit_in radix c = (case digit_value c of None \<Rightarrow> False | Some d \<Rightarrow> d < radix)"

definition digits_value :: "nat \<Rightarrow> string \<Rightarrow> nat" where
  "digits_value radix ds =
     fold (\<lambda>c acc. acc * radix + (case digit_value c of None \<Rightarrow> 0 | Some d \<Rightarrow> d)) ds 0"

definition parseInt_string :: "string \<Rightarrow> int option" where
  "parseInt_string s =
     (let s1 = dropWhile is_white_space s;
          neg = (case s1 of [] \<Rightarrow> False | c # r \<Rightarrow> c = CHR ''-'');
          s2 = (case s1 of [] \<Rightarrow> [] | c # r \<Rightarrow> if c = CHR ''-'' \<or> c = CHR ''+'' then r else s1);
          hex = (case s2 of a # b # r \<Rightarrow> a = CHR ''0'' \<and> (b = CHR ''x'' \<or> b = CHR ''X'') | _ \<Rightarrow> False);
          radix = (if hex then 16 else 10);
          s3 = (if hex then drop 2 s2 else s2);
          ds = takeWhile (is_digit_in radix) s3
      in if ds = [] then None
         else Some (if neg then - int (digits_value radix ds) else int (digits_value radix ds)))"

fun parseInt :: "maxprop \<Rightarrow> int option" where
  "parseInt MaxUndefined = None"
| "parseInt (MaxNumber n) = Some n"
| "parseInt (MaxString s) = parseInt_string s"

text \<open>\<open>keys.length > parseInt(this.max)\<close>: a comparison with NaN is false.\<close>

definition length_exceeds :: "nat \<Rightarrow> int option \<Rightarrow> bool" where
  "length_exceeds n m = (case m of None \<Rightarrow> False | Some c \<Rightarrow> int n > c)"

subsection \<open>Cache entries, virtual nodes and the component's fields\<close>

record CacheEntry =
  name :: "string option"
  tag :: "string option"
  componentInstance :: "Component option"

text \<open>
  Of \<open>VNodeComponentOptions\<close> the component reads \<open>Ctor.cid\<close>, \<open>tag\<close> and, through the
  imported \<open>getComponentName(opts.Ctor.options)\<close>, the constructor's name; that function
  is not in this file, so its result is the field \<open>Ctor_name\<close>.
\<close>

record VNodeComponentOptions =
  Ctor_cid :: nat
  Ctor_name :: "string option"
  opts_tag :: "string option"

text \<open>
  Of a \<open>VNode\<close> the component reads and writes \<open>tag\<close>, \<open>key\<close>, \<open>componentInstance\<close>,
  \<open>componentOptions\<close> and \<open>data.keepAlive\<close>. Keys are strings, as the declared types
  \<open>Record<string, CacheEntry | null>\<close> and \<open>Array<string>\<close> of \<open>cache\<close> and \<open>keys\<close> say; a
  \<open>key\<close> that is \<open>null\<close> or \<open>undefined\<close> is \<open>None\<close>.
\<close>

record VNodeData =
  keepAlive :: bool

record VNode =
  vnode_tag :: "string option"
  vnode_key :: "string option"
  vnode_componentInstance :: "Component option"
  componentOptions :: "VNodeComponentOptions option"
  vnode_data :: "VNodeData option"

text \<open>
  \<open>CacheEntryMap = Record<string, CacheEntry | null>\<close>, created by \<open>Object.create(null)\<close>:
  the list of its own properties in creation order. A property holds an entry or \<open>null\<close>
  (\<open>None\<close>); a key with no property reads as \<open>undefined\<close>. Every read in the file only
  tests the value for truthiness, so \<open>obj_get\<close> gives \<open>None\<close> for both.
\<close>

type_synonym CacheEntryMap = "(string \<times> CacheEntry option) list"

definition obj_get :: "CacheEntryMap \<Rightarrow> string \<Rightarrow> CacheEntry option" where
  "obj_get c k = (case map_of c k of Some (Some e) \<Rightarrow> Some e | _ \<Rightarrow> None)"

fun obj_set :: "CacheEntryMap \<Rightarrow> string \<Rightarrow> CacheEntry option \<Rightarrow> CacheEntryMap" where
  "obj_set [] k v = [(k, v)]"
| "obj_set ((k', v') # c) k v = (if k' = k then (k, v) # c else (k', v') # obj_set c k v)"

text \<open>
  \<open>for (const key in cache)\<close> visits the own properties: first the array indices (canonical
  numerals below \<open>2^32 - 1\<close>) in ascending order, then the other strings in creation order.
  The loops of this file only overwrite the value of the visited key, so the keys to visit
  are those present when the loop starts.
\<close>

definition is_array_index :: "string \<Rightarrow> bool" where
  "is_array_index k =
     (k \<noteq> [] \<and> list_all (is_digit_in 10) k \<and> (k = ''0'' \<or> hd k \<noteq> CHR ''0'')
      \<and> digits_value 10 k < 4294967295)"

definition for_in_keys :: "CacheEntryMap \<Rightarrow> string list" where
  "for_in_keys c =
     sort_key (digits_value 10) (filter is_array_index (map fst c))
     @ filter (\<lambda>k. \<not> is_array_index k) (map fst c)"

record KeepAlive =
  cache :: CacheEntryMap
  keys :: "string list"
  vnodeToCache :: "VNode option"
  keyToCache :: "string option"
  cur_vnode :: "VNode option"
  include_prop :: pattern
  exclude_prop :: pattern
  max_prop :: maxprop
  destroyed_log :: "Component list"
  lastIndex :: LastIndex

text \<open>
  \<open>cur_vnode\<close> is the field \<open>_vnode\<close>, the node the component currently displays; the props
  carry the suffix \<open>_prop\<close>. \<open>destroyed_log\<close> is the trace of \<open>$destroy()\<close> calls, and
  \<open>lastIndex\<close> the \<open>lastIndex\<close> property of each RegExp object; these two are not fields
  of the component but the part of its surroundings that its functions write.
\<close>

subsection \<open>The functions of the file\<close>

text \<open>
  Modelled from the spec: \<open>remove\<close> of \<open>shared/util\<close> is not in this file. The spec calls it
  a linear remove that takes the key out of the order and leaves the order of all other
  keys unchanged; it is modelled as the removal of the first occurrence.
\<close>

definition remove_arr :: "string list \<Rightarrow> string \<Rightarrow> string list" where
  "remove_arr arr item = remove1 item arr"

definition local_getComponentName :: "VNodeComponentOptions option \<Rightarrow> string option" where
  "local_getComponentName opts =
     (case opts of None \<Rightarrow> None
      | Some co \<Rightarrow> if truthy (Ctor_name co) then Ctor_name co else opts_tag co)"

definition destroy_call :: "Component option \<Rightarrow> KeepAlive \<Rightarrow> error + KeepAlive" where
  "destroy_call ci s =
     (case ci of None \<Rightarrow> Inl TypeError
      | Some c \<Rightarrow> Inr (s\<lparr>destroyed_log := destroyed_log s @ [c]\<rparr>))"

text \<open>\<open>entry.tag !== current.tag\<close> compares two values of type \<open>string | undefined\<close>.\<close>

definition must_destroy :: "CacheEntry \<Rightarrow> VNode option \<Rightarrow> bool" where
  "must_destroy entry current =
     (case current of None \<Rightarrow> True | Some cur \<Rightarrow> tag entry \<noteq> vnode_tag cur)"

definition pruneCacheEntry :: "string \<Rightarrow> VNode option \<Rightarrow> KeepAlive \<Rightarrow> error + KeepAlive" where
  "pruneCacheEntry key current s =
     (case (case obj_get (cache s) key of
              None \<Rightarrow> Inr s
            | Some entry \<Rightarrow>
                if must_destroy entry current then destroy_call (componentInstance entry) s
                else Inr s) of
        Inl e \<Rightarrow> Inl e
      | Inr s1 \<Rightarrow>
          Inr (s1\<lparr>cache := obj_set (cache s1) key None, keys := remove_arr (keys s1) key\<rparr>))"

fun for_each :: "('k \<Rightarrow> 's \<Rightarrow> error + 's) \<Rightarrow> 'k list \<Rightarrow> 's \<Rightarrow> error + 's" where
  "for_each body [] s = Inr s"
| "for_each body (k # ks) s =
     (case body k s of Inl e \<Rightarrow> Inl e | Inr s1 \<Rightarrow> for_each body ks s1)"

text \<open>
  \<open>pruneCache\<close>. The \<open>filter\<close> it is given calls \<open>matches\<close>, so it takes the \<open>lastIndex\<close>
  values and returns them with its result; \<open>name && !filter(name)\<close> calls it only for a
  name that is truthy.
\<close>

type_synonym name_filter = "string \<Rightarrow> LastIndex \<Rightarrow> bool \<times> LastIndex"

definition pruneCache_body ::
  "name_filter \<Rightarrow> VNode option \<Rightarrow> string \<Rightarrow> KeepAlive \<Rightarrow> error + KeepAlive" where
  "pruneCache_body filter_fn current key s =
     (case obj_get (cache s) key of
        None \<Rightarrow> Inr s
      | Some entry \<Rightarrow>
          (case name entry of
             None \<Rightarrow> Inr s
           | Some n \<Rightarrow>
               if n \<noteq> [] then
                 (let r = filter_fn n (lastIndex s);
                      s1 = s\<lparr>lastIndex := snd r\<rparr>
                  in if \<not> fst r then pruneCacheEntry key current s1 else Inr s1)
               else Inr s))"

definition pruneCache :: "name_filter \<Rightarrow> KeepAlive \<Rightarrow> error + KeepAlive" where
  "pruneCache filter_fn s =
     for_each (pruneCache_body filter_fn (cur_vnode s)) (for_in_keys (cache s)) s"

text \<open>
  \<open>cacheVNode\<close>. \<open>keyToCache\<close> is assigned together with \<open>vnodeToCache\<close>; were it still
  undefined, the property written would be named \<open>undefined\<close>. After the push \<open>keys\<close> is
  not empty, so \<open>keys[0]\<close> is its head.
\<close>

definition cacheVNode :: "KeepAlive \<Rightarrow> error + KeepAlive" where
  "cacheVNode s =
     (case vnodeToCache s of
        None \<Rightarrow> Inr s
      | Some v \<Rightarrow>
          (let k = (case keyToCache s of None \<Rightarrow> ''undefined'' | Some k \<Rightarrow> k);
               s1 = s\<lparr>cache := obj_set (cache s) k
                              (Some \<lparr>name = local_getComponentName (componentOptions v),
                                     tag = vnode_tag v,
                                     componentInstance = vnode_componentInstance v\<rparr>),
                        keys := keys s @ [k]\<rparr>
           in case (if truthy_max (max_prop s1)
                       \<and> length_exceeds (length (keys s1)) (parseInt (max_prop s1))
                    then pruneCacheEntry (hd (keys s1)) (cur_vnode s1) s1
                    else Inr s1) of
                Inl e \<Rightarrow> Inl e
              | Inr s2 \<Rightarrow> Inr (s2\<lparr>vnodeToCache := None\<rparr>)))"

text \<open>
  \<open>created()\<close>; the props come from the host, every other field is still unset. No
  \<open>$destroy()\<close> has been called, and every RegExp object has the \<open>lastIndex\<close> 0 it is
  created with.
\<close>

definition created :: "pattern \<Rightarrow> pattern \<Rightarrow> maxprop \<Rightarrow> KeepAlive" where
  "created inc exc m =
     \<lparr>cache = [], keys = [], vnodeToCache = None, keyToCache = None, cur_vnode = None,
      include_prop = inc, exclude_prop = exc, max_prop = m, destroyed_log = [],
      lastIndex = (\<lambda>a. 0)\<rparr>"

text \<open>\<open>destroyed()\<close> passes no \<open>current\<close> node.\<close>

definition destroyed :: "KeepAlive \<Rightarrow> error + KeepAlive" where
  "destroyed s = for_each (\<lambda>key. pruneCacheEntry key None) (for_in_keys (cache s)) s"

text \<open>
  The two watchers registered by \<open>mounted()\<close>, called with the new value of the prop, and
  the filters they pass: \<open>name => matches(val, name)\<close> and \<open>name => !matches(val, name)\<close>.
\<close>

definition include_filter :: "pattern \<Rightarrow> name_filter" where
  "include_filter val = (\<lambda>n h. matches val n h)"

definition exclude_filter :: "pattern \<Rightarrow> name_filter" where
  "exclude_filter val = (\<lambda>n h. (\<not> fst (matches val n h), snd (matches val n h)))"

definition watch_include :: "pattern \<Rightarrow> KeepAlive \<Rightarrow> error + KeepAlive" where
  "watch_include val s = pruneCache (include_filter val) s"

definition watch_exclude :: "pattern \<Rightarrow> KeepAlive \<Rightarrow> error + KeepAlive" where
  "watch_exclude val s = pruneCache (exclude_filter val) s"

text \<open>
  The test of \<open>render\<close> that returns the node uncached:
  \<open>(include && (!name || !matches(include, name))) || (exclude && name && matches(exclude, name))\<close>.
  \<open>&&\<close> and \<open>||\<close> evaluate from left to right and stop early: \<open>matches(include, name)\<close> is
  called when \<open>include\<close> and \<open>name\<close> are truthy, and \<open>matches(exclude, name)\<close> is called
  after it, when the first disjunct is false and \<open>exclude\<close> and \<open>name\<close> are truthy.
\<close>

definition not_included :: "string option \<Rightarrow> pattern \<Rightarrow> LastIndex \<Rightarrow> bool \<times> LastIndex" where
  "not_included nm inc h =
     (if truthy_pattern inc
      then (if truthy nm then (\<not> fst (matches inc (the nm) h), snd (matches inc (the nm) h))
            else (True, h))
      else (False, h))"

definition excluded :: "string option \<Rightarrow> pattern \<Rightarrow> LastIndex \<Rightarrow> bool \<times> LastIndex" where
  "excluded nm exc h =
     (if truthy_pattern exc \<and> truthy nm then matches exc (the nm) h else (False, h))"

definition not_cached :: "string option \<Rightarrow> pattern \<Rightarrow> pattern \<Rightarrow> LastIndex \<Rightarrow> bool \<times> LastIndex" where
  "not_cached nm inc exc h =
     (if fst (not_included nm inc h) then (True, snd (not_included nm inc h))
      else excluded nm exc (snd (not_included nm inc h)))"

definition vnode_cache_key :: "VNode \<Rightarrow> VNodeComponentOptions \<Rightarrow> string" where
  "vnode_cache_key v co =
     (case vnode_key v of
        None \<Rightarrow> string_of_nat (Ctor_cid co)
                 @ (case opts_tag co of None \<Rightarrow> []
                    | Some t \<Rightarrow> if t \<noteq> [] then ''::'' @ t else [])
      | Some k \<Rightarrow> k)"

text \<open>
  \<open>render\<close>. Its two arguments are the values of \<open>getFirstComponentChild(slot)\<close> (imported,
  not in this file) and of \<open>slot && slot[0]\<close>. It returns the node handed back to the host.
  On a miss the field \<open>vnodeToCache\<close> refers to the same object as the returned node, so the
  staged copy carries the \<open>keepAlive\<close> flag set on the last line as well. That last line,
  \<open>vnode.data.keepAlive = true\<close>, raises when \<open>data\<close> is undefined; as the model does not
  describe the fields after an exception, it tests \<open>data\<close> before it looks the key up.
\<close>

definition render ::
  "VNode option \<Rightarrow> VNode option \<Rightarrow> KeepAlive \<Rightarrow> error + (VNode option \<times> KeepAlive)" where
  "render vnode slot0 s =
     (case vnode of
        None \<Rightarrow> Inr (slot0, s)
      | Some v \<Rightarrow>
          (case componentOptions v of
             None \<Rightarrow> Inr (Some v, s)
           | Some co \<Rightarrow>
               (let t = not_cached (local_getComponentName (Some co))
                          (include_prop s) (exclude_prop s) (lastIndex s);
                    s0 = s\<lparr>lastIndex := snd t\<rparr>
                in if fst t then Inr (Some v, s0)
                   else
                     (let key = vnode_cache_key v co in
                      case vnode_data v of
                        None \<Rightarrow> Inl TypeError
                      | Some d \<Rightarrow>
                          (case obj_get (cache s0) key of
                             Some entry \<Rightarrow>
                               Inr (Some (v\<lparr>vnode_componentInstance := componentInstance entry,
                                            vnode_data := Some (d\<lparr>keepAlive := True\<rparr>)\<rparr>),
                                    s0\<lparr>keys := remove_arr (keys s0) key @ [key]\<rparr>)
                           | None \<Rightarrow>
                               (let v1 = v\<lparr>vnode_data := Some (d\<lparr>keepAlive := True\<rparr>)\<rparr>
                                in Inr (Some v1,
                                        s0\<lparr>vnodeToCache := Some v1, keyToCache := Some key\<rparr>)))))))"

subsection \<open>The operations on the component, in the order the host calls them\<close>

text \<open>
  Besides the hooks of the file, the host acts on the fields the file reads: the patch
  sets \<open>componentInstance\<close> on the node object that \<open>vnodeToCache\<close> refers to
  (\<open>HostPatch\<close>), the update sets \<open>_vnode\<close> (\<open>HostUpdate\<close>), the parent sets the props
  (\<open>HostProps\<close>), and whoever holds a RegExp object may use it or assign its \<open>lastIndex\<close>
  (\<open>HostLastIndex\<close>). \<open>mounted()\<close> and \<open>updated()\<close> both call \<open>cacheVNode\<close>.
\<close>

datatype op =
    Render "VNode option" "VNode option"
  | HostPatch Component
  | HostUpdate "VNode option"
  | HostProps pattern pattern maxprop
  | HostLastIndex nat nat
  | CacheVNode
  | WatchInclude pattern
  | WatchExclude pattern
  | Destroyed

fun step :: "op \<Rightarrow> KeepAlive \<Rightarrow> error + KeepAlive" where
  "step (Render vnode slot0) s =
     (case render vnode slot0 s of Inl e \<Rightarrow> Inl e | Inr (r, s1) \<Rightarrow> Inr s1)"
| "step (HostPatch c) s =
     Inr (s\<lparr>vnodeToCache := map_option (\<lambda>v. v\<lparr>vnode_componentInstance := Some c\<rparr>) (vnodeToCache s)\<rparr>)"
| "step (HostUpdate v) s = Inr (s\<lparr>cur_vnode := v\<rparr>)"
| "step (HostProps inc exc m) s = Inr (s\<lparr>include_prop := inc, exclude_prop := exc, max_prop := m\<rparr>)"
| "step (HostLastIndex a i) s = Inr (s\<lparr>lastIndex := (lastIndex s)(a := i)\<rparr>)"
| "step CacheVNode s = cacheVNode s"
| "step (WatchInclude val) s = watch_include val s"
| "step (WatchExclude val) s = watch_exclude val s"
| "step Destroyed s = destroyed s"

definition run :: "op list \<Rightarrow> KeepAlive \<Rightarrow> error + KeepAlive" where
  "run ops s = for_each step ops s"

subsection \<open>Invariants of the store and the contract of the host\<close>

text \<open>
  \<open>cache_inv\<close>: the properties of \<open>cache\<close> are distinct, \<open>keys\<close> lists exactly the keys
  that hold an entry, each once; every entry held has an instance, no two entries share an
  instance, no held instance has been destroyed, and no instance was destroyed twice.
  \<open>staged_ok\<close>: the key of a staged candidate holds no entry.
\<close>

definition cache_inv :: "KeepAlive \<Rightarrow> bool" where
  "cache_inv s \<longleftrightarrow>
     distinct (map fst (cache s)) \<and> distinct (keys s)
     \<and> (\<forall>k. k \<in> set (keys s) \<longleftrightarrow> obj_get (cache s) k \<noteq> None)
     \<and> (\<forall>k e. obj_get (cache s) k = Some e \<longrightarrow>
            (\<exists>c. componentInstance e = Some c \<and> c \<notin> set (destroyed_log s)))
     \<and> (\<forall>k k' e e'. obj_get (cache s) k = Some e \<longrightarrow> obj_get (cache s) k' = Some e' \<longrightarrow>
            componentInstance e = componentInstance e' \<longrightarrow> k = k')
     \<and> distinct (destroyed_log s)"

definition staged_ok :: "KeepAlive \<Rightarrow> bool" where
  "staged_ok s \<longleftrightarrow>
     (\<forall>v. vnodeToCache s = Some v \<longrightarrow> (\<exists>k. keyToCache s = Some k \<and> obj_get (cache s) k = None))"

definition store_inv :: "KeepAlive \<Rightarrow> bool" where
  "store_inv s \<longleftrightarrow> cache_inv s \<and> staged_ok s"

text \<open>
  What the functions rely on from the host: a component node passed to \<open>render\<close> has a
  \<open>data\<close> object, and by the time \<open>cacheVNode\<close> runs the patch has given the staged
  node an instance that is alive and not already owned by the cache. \<open>host_ok_run\<close> asks
  this of every operation of a run, as long as the run goes on.
\<close>

definition not_held :: "Component \<Rightarrow> CacheEntryMap \<Rightarrow> bool" where
  "not_held c cm =
     list_all (\<lambda>(k, v). case v of None \<Rightarrow> True | Some e \<Rightarrow> componentInstance e \<noteq> Some c) cm"

fun host_ok :: "KeepAlive \<Rightarrow> op \<Rightarrow> bool" where
  "host_ok s (Render vnode slot0) =
     (case vnode of None \<Rightarrow> True
      | Some v \<Rightarrow> componentOptions v = None \<or> vnode_data v \<noteq> None)"
| "host_ok s CacheVNode =
     (case vnodeToCache s of None \<Rightarrow> True
      | Some v \<Rightarrow>
          (case vnode_componentInstance v of None \<Rightarrow> False
           | Some c \<Rightarrow> c \<notin> set (destroyed_log s) \<and> not_held c (cache s)))"
| "host_ok s x = True"

fun host_ok_run :: "op list \<Rightarrow> KeepAlive \<Rightarrow> bool" where
  "host_ok_run [] s = True"
| "host_ok_run (x # xs) s =
     (host_ok s x \<and> (case step x s of Inl e \<Rightarrow> True | Inr s1 \<Rightarrow> host_ok_run xs s1))"

subsection \<open>Notions used to state the properties\<close>

text \<open>
  \<open>shrinks s s'\<close>: from \<open>s\<close> to \<open>s'\<close> no entry was added or changed and no key was
  added to \<open>keys\<close>, and every \<open>$destroy()\<close> called in between was called on the instance
  of an entry that \<open>s\<close> held and \<open>s'\<close> no longer holds, neither in \<open>cache\<close> nor in
  \<open>keys\<close>. \<open>only_removes\<close> adds that the other fields are unchanged.
\<close>

definition shrinks :: "KeepAlive \<Rightarrow> KeepAlive \<Rightarrow> bool" where
  "shrinks s s' \<longleftrightarrow>
     (\<forall>k e. obj_get (cache s') k = Some e \<longrightarrow> obj_get (cache s) k = Some e)
     \<and> set (keys s') \<subseteq> set (keys s)
     \<and> length (keys s') \<le> length (keys s)
     \<and> (\<exists>new. destroyed_log s' = destroyed_log s @ new
            \<and> (\<forall>c \<in> set new. \<exists>k e. obj_get (cache s) k = Some e \<and> componentInstance e = Some c
                   \<and> obj_get (cache s') k = None \<and> k \<notin> set (keys s')))"

definition only_removes :: "KeepAlive \<Rightarrow> KeepAlive \<Rightarrow> bool" where
  "only_removes s s' \<longleftrightarrow>
     shrinks s s'
     \<and> vnodeToCache s' = vnodeToCache s \<and> keyToCache s' = keyToCache s
     \<and> cur_vnode s' = cur_vnode s \<and> include_prop s' = include_prop s
     \<and> exclude_prop s' = exclude_prop s \<and> max_prop s' = max_prop s"

text \<open>
  The entry that \<open>cacheVNode\<close> writes for a staged node, the fields after the write and the
  push, and the test that leads to the eviction of \<open>keys[0]\<close>.
\<close>

definition entry_of :: "VNode \<Rightarrow> CacheEntry" where
  "entry_of v =
     \<lparr>name = local_getComponentName (componentOptions v), tag = vnode_tag v,
      componentInstance = vnode_componentInstance v\<rparr>"

definition admitted :: "VNode \<Rightarrow> string \<Rightarrow> KeepAlive \<Rightarrow> KeepAlive" where
  "admitted v k s = s\<lparr>cache := obj_set (cache s) k (Some (entry_of v)), keys := keys s @ [k]\<rparr>"

definition overflows :: "KeepAlive \<Rightarrow> bool" where
  "overflows s \<longleftrightarrow>
     truthy_max (max_prop s) \<and> length_exceeds (length (keys s)) (parseInt (max_prop s))"

text \<open>
  \<open>destroyed_with_removal x s s'\<close>: every \<open>$destroy()\<close> called by the operation \<open>x\<close>, which
  leads from \<open>s\<close> to \<open>s'\<close>, was called on the instance of an entry that \<open>x\<close> removed: the
  key holds no entry in \<open>s'\<close> and is not in \<open>keys\<close>, and the instance was that of the entry
  \<open>s\<close> held under the key, or that of the candidate which \<open>cacheVNode\<close> admitted and
  evicted at once.
\<close>

definition destroyed_with_removal :: "op \<Rightarrow> KeepAlive \<Rightarrow> KeepAlive \<Rightarrow> bool" where
  "destroyed_with_removal x s s' \<longleftrightarrow>
     (\<exists>new. destroyed_log s' = destroyed_log s @ new
        \<and> (\<forall>c \<in> set new. \<exists>k. obj_get (cache s') k = None \<and> k \<notin> set (keys s')
               \<and> ((\<exists>e. obj_get (cache s) k = Some e \<and> componentInstance e = Some c)
                    \<or> (x = CacheVNode \<and> keyToCache s = Some k
                        \<and> (\<exists>v. vnodeToCache s = Some v \<and> vnode_componentInstance v = Some c)))))"

text \<open>
  The loops of \<open>pruneCache\<close> and \<open>destroyed\<close> call \<open>pruneCacheEntry\<close> on the keys whose
  entry satisfies a test \<open>Q\<close> (for \<open>destroyed\<close>, every entry); \<open>cond_prune\<close> is the body of
  such a loop. \<open>pruned Q c k\<close> says that the key \<open>k\<close> holds an entry of \<open>c\<close> that satisfies
  \<open>Q\<close>; \<open>destroy_calls Q cur c ks\<close> lists, in the order of \<open>ks\<close>, the instances of those
  entries that the tag test against \<open>cur\<close> lets be destroyed.
\<close>

definition cond_prune ::
  "(CacheEntry \<Rightarrow> bool) \<Rightarrow> VNode option \<Rightarrow> string \<Rightarrow> KeepAlive \<Rightarrow> error + KeepAlive" where
  "cond_prune Q cur key s =
     (case obj_get (cache s) key of
        None \<Rightarrow> Inr s
      | Some e \<Rightarrow> if Q e then pruneCacheEntry key cur s else Inr s)"

definition pruned :: "(CacheEntry \<Rightarrow> bool) \<Rightarrow> CacheEntryMap \<Rightarrow> string \<Rightarrow> bool" where
  "pruned Q c k = (case obj_get c k of None \<Rightarrow> False | Some e \<Rightarrow> Q e)"

definition destroy_calls ::
  "(CacheEntry \<Rightarrow> bool) \<Rightarrow> VNode option \<Rightarrow> CacheEntryMap \<Rightarrow> string list \<Rightarrow> Component list" where
  "destroy_calls Q cur c ks =
     concat (map (\<lambda>k. case obj_get c k of
                         None \<Rightarrow> []
                       | Some e \<Rightarrow>
                           if Q e \<and> must_destroy e cur
                           then (case componentInstance e of None \<Rightarrow> [] | Some i \<Rightarrow> [i])
                           else []) ks)"

text \<open>
  The admissibility test in the words of the specification. \<open>join_with c segs\<close> is the
  string whose segments, separated by \<open>c\<close>, are \<open>segs\<close>. A string specification matches a
  name that equals one of its comma-separated segments, a list a name that is one of its
  elements, and a regular expression a name that its \<open>test\<close> accepts. The exclude
  specification is tested after the include specification, so a regular expression with
  the flag \<open>g\<close> or \<open>y\<close> that is given as both is tested from where the first test left it.
  \<open>claimed_isAdmissible\<close> reads "set" as "given" and "present" as "not null or undefined";
  \<open>amended_isAdmissible\<close> reads "set" as "given, and not the empty string" and "present"
  as "a string that is not empty".
\<close>

fun join_with :: "char \<Rightarrow> string list \<Rightarrow> string" where
  "join_with c [] = []"
| "join_with c [x] = x"
| "join_with c (x # y # ys) = x @ c # join_with c (y # ys)"

definition is_segment_of :: "string \<Rightarrow> string \<Rightarrow> bool" where
  "is_segment_of n str \<longleftrightarrow>
     (\<exists>segs. segs \<noteq> [] \<and> list_all (\<lambda>seg. CHR '','' \<notin> set seg) segs
            \<and> str = join_with CHR '','' segs \<and> n \<in> set segs)"

fun spec_matches :: "pattern \<Rightarrow> string \<Rightarrow> LastIndex \<Rightarrow> bool" where
  "spec_matches (PString str) n h = is_segment_of n str"
| "spec_matches (PArray xs) n h = (n \<in> set xs)"
| "spec_matches (PRegExp r) n h = fst (regexp_test r n h)"
| "spec_matches PUndefined n h = False"

fun lastIndex_after :: "pattern \<Rightarrow> string \<Rightarrow> LastIndex \<Rightarrow> LastIndex" where
  "lastIndex_after (PRegExp r) n h = snd (regexp_test r n h)"
| "lastIndex_after PUndefined n h = h"
| "lastIndex_after (PString str) n h = h"
| "lastIndex_after (PArray xs) n h = h"

definition claimed_isAdmissible ::
  "string option \<Rightarrow> pattern \<Rightarrow> pattern \<Rightarrow> LastIndex \<Rightarrow> bool" where
  "claimed_isAdmissible nm inc exc h =
     (if inc \<noteq> PUndefined \<and> (nm = None \<or> \<not> spec_matches inc (the nm) h) then False
      else if exc \<noteq> PUndefined \<and> nm \<noteq> None
              \<and> spec_matches exc (the nm)
                    (if inc \<noteq> PUndefined then lastIndex_after inc (the nm) h else h)
      then False
      else True)"

definition is_set :: "pattern \<Rightarrow> bool" where
  "is_set p \<longleftrightarrow> p \<noteq> PUndefined \<and> p \<noteq> PString []"

definition present :: "string option \<Rightarrow> bool" where
  "present nm \<longleftrightarrow> nm \<noteq> None \<and> nm \<noteq> Some []"

definition amended_isAdmissible ::
  "string option \<Rightarrow> pattern \<Rightarrow> pattern \<Rightarrow> LastIndex \<Rightarrow> bool" where
  "amended_isAdmissible nm inc exc h =
     (if is_set inc \<and> (\<not> present nm \<or> \<not> spec_matches inc (the nm) h) then False
      else if is_set exc \<and> present nm
              \<and> spec_matches exc (the nm)
                    (if is_set inc then lastIndex_after inc (the nm) h else h)
      then False
      else True)"

text \<open>
  The keys that a policy change selects. \<open>rejected_keys f c ks h\<close> goes through the keys
  \<open>ks\<close> in order and applies the test \<open>f\<close> to the name of every entry of \<open>c\<close> that has a
  truthy name, handing the \<open>lastIndex\<close> values from one test to the next; it returns the
  keys whose name failed the test and the \<open>lastIndex\<close> values after the last test.
  \<open>policy_rejects f s\<close> are the keys so selected in the state \<open>s\<close>, in the order of
  \<open>for (const key in cache)\<close>. The test after a change of \<open>include\<close> is \<open>include_test val\<close>:
  the name passes when the new value matches it, in the sense of the specification; the
  test after a change of \<open>exclude\<close> is \<open>exclude_test val\<close>: the name passes when the new value
  does not match it. \<open>stateless p\<close> says that \<open>p\<close> is not a regular expression with the flag
  \<open>g\<close> or \<open>y\<close>, so that a test neither reads nor writes a \<open>lastIndex\<close>.
\<close>

fun rejected_keys ::
  "name_filter \<Rightarrow> CacheEntryMap \<Rightarrow> string list \<Rightarrow> LastIndex \<Rightarrow> string list \<times> LastIndex" where
  "rejected_keys f c [] h = ([], h)"
| "rejected_keys f c (k # ks) h =
     (case obj_get c k of
        None \<Rightarrow> rejected_keys f c ks h
      | Some e \<Rightarrow>
          if truthy (name e)
          then (let r = f (the (name e)) h;
                    rest = rejected_keys f c ks (snd r)
                in (if fst r then fst rest else k # fst rest, snd rest))
          else rejected_keys f c ks h)"

definition policy_rejects :: "name_filter \<Rightarrow> KeepAlive \<Rightarrow> string list" where
  "policy_rejects f s = fst (rejected_keys f (cache s) (for_in_keys (cache s)) (lastIndex s))"

definition include_test :: "pattern \<Rightarrow> name_filter" where
  "include_test val = (\<lambda>n h. (spec_matches val n h, lastIndex_after val n h))"

definition exclude_test :: "pattern \<Rightarrow> name_filter" where
  "exclude_test val = (\<lambda>n h. (\<not> spec_matches val n h, lastIndex_after val n h))"

fun stateless :: "pattern \<Rightarrow> bool" where
  "stateless (PRegExp r) = (\<not> re_global_or_sticky r)"
| "stateless PUndefined = True"
| "stateless (PString str) = True"
| "stateless (PArray xs) = True"

text \<open>
  \<open>removed_with_tag_test P s s'\<close>: from \<open>s\<close> to \<open>s'\<close> exactly the entries under the keys
  \<open>P\<close> were removed, from \<open>cache\<close> and from \<open>keys\<close>, every other entry is as it was, and
  \<open>$destroy()\<close> was called once on the instance of each removed entry whose tag differs
  from the tag of the current node \<open>_vnode\<close> (or when there is no current node), and on
  nothing else.
\<close>

definition removed_with_tag_test :: "string list \<Rightarrow> KeepAlive \<Rightarrow> KeepAlive \<Rightarrow> bool" where
  "removed_with_tag_test P s s' \<longleftrightarrow>
     (\<exists>new. destroyed_log s' = destroyed_log s @ new \<and> distinct new
        \<and> (\<forall>k e c. obj_get (cache s) k = Some e \<and> componentInstance e = Some c \<longrightarrow>
               (if k \<in> set P
                then obj_get (cache s') k = None \<and> k \<notin> set (keys s')
                     \<and> (c \<in> set new \<longleftrightarrow> (\<forall>cv. cur_vnode s = Some cv \<longrightarrow> tag e \<noteq> vnode_tag cv))
                else obj_get (cache s') k = Some e \<and> k \<in> set (keys s') \<and> c \<notin> set new))
        \<and> (\<forall>c \<in> set new. \<exists>k e. k \<in> set P \<and> obj_get (cache s) k = Some e
                                  \<and> componentInstance e = Some c))"

text \<open>An operation that leaves the prop \<open>max\<close> at the value \<open>m\<close>.\<close>

definition keeps_max :: "maxprop \<Rightarrow> op \<Rightarrow> bool" where
  "keeps_max m x = (case x of HostProps i e m' \<Rightarrow> m' = m | _ \<Rightarrow> True)"

text \<open>
  The admission of one node, as the host drives it: \<open>render\<close> misses and stages the node,
  the patch gives it the instance \<open>c\<close>, and \<open>mounted\<close> or \<open>updated\<close> calls \<open>cacheVNode\<close>.
  \<open>cacheable\<close> says that \<open>render\<close> reaches the cache with the node and writes no
  \<open>lastIndex\<close> on the way: it is a component node with a \<open>data\<close> object that passes the
  include and exclude test, and neither prop is a regular expression with the flag \<open>g\<close> or
  \<open>y\<close>. \<open>cache_key\<close> is the key \<open>render\<close> computes for the node and \<open>patched v c\<close> the
  node object as \<open>cacheVNode\<close> finds it.
\<close>

definition admit_ops :: "VNode \<Rightarrow> Component \<Rightarrow> op list" where
  "admit_ops v c = [Render (Some v) None, HostPatch c, CacheVNode]"

definition admit_all :: "(VNode \<times> Component) list \<Rightarrow> op list" where
  "admit_all vcs = concat (map (\<lambda>(v, c). admit_ops v c) vcs)"

definition cache_key :: "VNode \<Rightarrow> string" where
  "cache_key v = (case componentOptions v of None \<Rightarrow> [] | Some co \<Rightarrow> vnode_cache_key v co)"

definition cacheable :: "pattern \<Rightarrow> pattern \<Rightarrow> VNode \<Rightarrow> bool" where
  "cacheable inc exc v \<longleftrightarrow>
     componentOptions v \<noteq> None \<and> vnode_data v \<noteq> None \<and> stateless inc \<and> stateless exc
     \<and> \<not> fst (not_cached (local_getComponentName (componentOptions v)) inc exc (\<lambda>a. 0))"

definition patched :: "VNode \<Rightarrow> Component \<Rightarrow> VNode" where
  "patched v c =
     v\<lparr>vnode_componentInstance := Some c,
       vnode_data := map_option (\<lambda>d. d\<lparr>keepAlive := True\<rparr>) (vnode_data v)\<rparr>"

text \<open>The object without the property \<open>key\<close>, as if the key had never been written.\<close>

definition delete_property :: "string \<Rightarrow> CacheEntryMap \<Rightarrow> CacheEntryMap" where
  "delete_property key c = filter (\<lambda>(k, v). k \<noteq> key) c"

subsection \<open>Concrete nodes, runs and stores for the examples\<close>

text \<open>
  A component node with an explicit key, a tag and a component name, not yet patched, and
  three such nodes.
\<close>

definition component_vnode :: "string \<Rightarrow> string \<Rightarrow> string \<Rightarrow> VNode" where
  "component_vnode k t n =
     \<lparr>vnode_tag = Some t, vnode_key = Some k, vnode_componentInstance = None,
      componentOptions = Some \<lparr>Ctor_cid = 1, Ctor_name = Some n, opts_tag = Some t\<rparr>,
      vnode_data = Some \<lparr>keepAlive = False\<rparr>\<rparr>"

definition node_A :: VNode where
  "node_A = component_vnode ''A'' ''tag-a'' ''Alpha''"

definition node_B :: VNode where
  "node_B = component_vnode ''B'' ''tag-b'' ''Beta''"

definition node_C :: VNode where
  "node_C = component_vnode ''C'' ''tag-c'' ''Gamma''"

text \<open>
  The scenario of a store of capacity two that shows \<open>A\<close>, then \<open>B\<close>, then \<open>A\<close> again and then
  \<open>C\<close>. Each time the host renders, sets \<open>_vnode\<close>, patches, and calls the hook that commits.
  \<open>scenario_start\<close> stops before the last commit.
\<close>

definition scenario_start :: "op list" where
  "scenario_start =
     [Render (Some node_A) None, HostUpdate (Some node_A), HostPatch 1, CacheVNode,
      Render (Some node_B) None, HostUpdate (Some node_B), HostPatch 2, CacheVNode,
      Render (Some node_A) None, HostUpdate (Some node_A), CacheVNode,
      Render (Some node_C) None, HostUpdate (Some node_C), HostPatch 3]"

definition scenario_ops :: "op list" where
  "scenario_ops = scenario_start @ [CacheVNode]"

text \<open>The store of capacity two after the admission of \<open>A\<close> and \<open>B\<close>.\<close>

definition store_AB :: KeepAlive where
  "store_AB =
     \<lparr>cache = [(''A'', Some \<lparr>name = Some ''Alpha'', tag = Some ''tag-a'', componentInstance = Some 1\<rparr>),
               (''B'', Some \<lparr>name = Some ''Beta'', tag = Some ''tag-b'', componentInstance = Some 2\<rparr>)],
      keys = [''A'', ''B''], vnodeToCache = None, keyToCache = Some ''B'', cur_vnode = None,
      include_prop = PUndefined, exclude_prop = PUndefined, max_prop = MaxNumber 2,
      destroyed_log = [], lastIndex = (\<lambda>a. 0)\<rparr>"

text \<open>
  The same store while its current node has the tag of \<open>A\<close> and it holds the candidate
  \<open>C\<close>, rendered and patched but not yet committed; and a run that leads there.
\<close>

definition store_AB_staged_C :: KeepAlive where
  "store_AB_staged_C =
     store_AB\<lparr>vnodeToCache := Some (patched node_C 3), keyToCache := Some ''C'',
              cur_vnode := Some node_A\<rparr>"

definition ops_AB_staged_C :: "op list" where
  "ops_AB_staged_C =
     admit_ops node_A 1 @ admit_ops node_B 2
     @ [HostUpdate (Some node_A), Render (Some node_C) None, HostPatch 3]"

text \<open>
  An unbounded store after the admission of \<open>A\<close>, \<open>B\<close> and \<open>C\<close>, and the same store after
  \<open>B\<close> was pruned while no node was current.
\<close>

definition store_ABC :: KeepAlive where
  "store_ABC =
     \<lparr>cache = [(''A'', Some \<lparr>name = Some ''Alpha'', tag = Some ''tag-a'', componentInstance = Some 1\<rparr>),
               (''B'', Some \<lparr>name = Some ''Beta'', tag = Some ''tag-b'', componentInstance = Some 2\<rparr>),
               (''C'', Some \<lparr>name = Some ''Gamma'', tag = Some ''tag-c'', componentInstance = Some 3\<rparr>)],
      keys = [''A'', ''B'', ''C''], vnodeToCache = None, keyToCache = Some ''C'', cur_vnode = None,
      include_prop = PUndefined, exclude_prop = PUndefined, max_prop = MaxUndefined,
      destroyed_log = [], lastIndex = (\<lambda>a. 0)\<rparr>"

definition store_ABC_pruned_B :: KeepAlive where
  "store_ABC_pruned_B =
     store_ABC\<lparr>cache := [(''A'', Some \<lparr>name = Some ''Alpha'', tag = Some ''tag-a'',
                                        componentInstance = Some 1\<rparr>),
                         (''B'', None),
                         (''C'', Some \<lparr>name = Some ''Gamma'', tag = Some ''tag-c'',
                                        componentInstance = Some 3\<rparr>)],
               keys := [''A'', ''C''], destroyed_log := [2]\<rparr>"

text \<open>
  The regular expression \<open>/^(Alpha|Beta)$/g\<close>, as one object. Anchored at both ends, it
  matches only when the search starts at index 0, and then the whole string.
\<close>

definition regexp_alpha_beta_g :: RegExp where
  "regexp_alpha_beta_g =
     \<lparr>re_object = 0, re_global_or_sticky = True,
      re_match = (\<lambda>i str. if i = 0 \<and> (str = ''Alpha'' \<or> str = ''Beta'')
                            then Some (length str) else None)\<rparr>"


section \<open>Properties\<close>

subsection \<open>The cache object and the removal of one entry\<close>

lemma obj_get_obj_set [simp]:
  "obj_get (obj_set c k v) k' = (if k' = k then v else obj_get c k')"
  by (induction c k v rule: obj_set.induct) (auto simp: obj_get_def split: option.splits)

lemma map_fst_obj_set:
  "map fst (obj_set c k v) = (if k \<in> set (map fst c) then map fst c else map fst c @ [k])"
  by (induction c k v rule: obj_set.induct) auto

lemma distinct_obj_set: "distinct (map fst c) \<Longrightarrow> distinct (map fst (obj_set c k v))"
  by (simp add: map_fst_obj_set)

lemma obj_get_notin: "k \<notin> set (map fst c) \<Longrightarrow> obj_get c k = None"
  by (simp add: obj_get_def map_of_eq_None_iff[THEN iffD2])

lemma obj_get_in: "obj_get c k = Some e \<Longrightarrow> k \<in> set (map fst c)"
  using obj_get_notin by fastforce

lemma obj_get_mem: "obj_get c k = Some e \<Longrightarrow> (k, Some e) \<in> set c"
  by (auto simp: obj_get_def split: option.splits dest: map_of_SomeD)

lemma not_held_iff:
  "distinct (map fst cm) \<Longrightarrow>
   not_held c cm \<longleftrightarrow> (\<forall>k e. obj_get cm k = Some e \<longrightarrow> componentInstance e \<noteq> Some c)"
  by (auto simp: not_held_def list_all_iff obj_get_def split: option.splits dest: map_of_SomeD)

lemma set_for_in_keys [simp]: "set (for_in_keys c) = set (map fst c)"
  by (auto simp: for_in_keys_def)

lemma distinct_for_in_keys: "distinct (map fst c) \<Longrightarrow> distinct (for_in_keys c)"
  by (auto simp: for_in_keys_def)

lemma for_in_keys_obj_set:
  "k \<in> set (map fst c) \<Longrightarrow> for_in_keys (obj_set c k v) = for_in_keys c"
  by (simp add: for_in_keys_def map_fst_obj_set)

lemma pruneCacheEntry_eq:
  "pruneCacheEntry key cur s =
     (case obj_get (cache s) key of
        None \<Rightarrow> Inr (s\<lparr>cache := obj_set (cache s) key None, keys := remove1 key (keys s)\<rparr>)
      | Some e \<Rightarrow>
          if must_destroy e cur then
            (case componentInstance e of
               None \<Rightarrow> Inl TypeError
             | Some c \<Rightarrow> Inr (s\<lparr>cache := obj_set (cache s) key None,
                                keys := remove1 key (keys s),
                                destroyed_log := destroyed_log s @ [c]\<rparr>))
          else Inr (s\<lparr>cache := obj_set (cache s) key None, keys := remove1 key (keys s)\<rparr>))"
  by (simp add: pruneCacheEntry_def destroy_call_def remove_arr_def split: option.splits)

lemma pruneCacheEntry_ok:
  assumes "cache_inv s"
  shows "\<exists>s'. pruneCacheEntry key cur s = Inr s'"
proof (cases "obj_get (cache s) key")
  case None
  then show ?thesis by (simp add: pruneCacheEntry_eq)
next
  case (Some e)
  with assms obtain c where "componentInstance e = Some c"
    unfolding cache_inv_def by blast
  with Some show ?thesis by (simp add: pruneCacheEntry_eq)
qed

lemma cache_invI:
  assumes "distinct (map fst (cache s))" and "distinct (keys s)"
    and "\<And>k. k \<in> set (keys s) \<longleftrightarrow> obj_get (cache s) k \<noteq> None"
    and "\<And>k e. obj_get (cache s) k = Some e \<Longrightarrow>
           \<exists>c. componentInstance e = Some c \<and> c \<notin> set (destroyed_log s)"
    and "\<And>k k' e e'. obj_get (cache s) k = Some e \<Longrightarrow> obj_get (cache s) k' = Some e' \<Longrightarrow>
           componentInstance e = componentInstance e' \<Longrightarrow> k = k'"
    and "distinct (destroyed_log s)"
  shows "cache_inv s"
  unfolding cache_inv_def using assms by blast

lemma cache_inv_props: "cache_inv s \<Longrightarrow> distinct (map fst (cache s))"
  by (simp add: cache_inv_def)

lemma cache_inv_distinct: "cache_inv s \<Longrightarrow> distinct (keys s)"
  by (simp add: cache_inv_def)

lemma cache_inv_keys: "cache_inv s \<Longrightarrow> k \<in> set (keys s) \<longleftrightarrow> obj_get (cache s) k \<noteq> None"
  by (simp add: cache_inv_def)

lemma cache_inv_inst:
  "cache_inv s \<Longrightarrow> obj_get (cache s) k = Some e \<Longrightarrow>
   \<exists>c. componentInstance e = Some c \<and> c \<notin> set (destroyed_log s)"
  unfolding cache_inv_def by blast

lemma cache_inv_inj:
  "cache_inv s \<Longrightarrow> obj_get (cache s) k = Some e \<Longrightarrow> obj_get (cache s) k' = Some e' \<Longrightarrow>
   componentInstance e = componentInstance e' \<Longrightarrow> k = k'"
  unfolding cache_inv_def by blast

lemma cache_inv_log: "cache_inv s \<Longrightarrow> distinct (destroyed_log s)"
  by (simp add: cache_inv_def)

lemma cache_inv_tombstone:
  assumes inv: "cache_inv s"
  shows "cache_inv (s\<lparr>cache := obj_set (cache s) key None, keys := remove1 key (keys s)\<rparr>)"
proof (rule cache_invI)
  fix k
  show "k \<in> set (keys (s\<lparr>cache := obj_set (cache s) key None, keys := remove1 key (keys s)\<rparr>))
        \<longleftrightarrow> obj_get (cache (s\<lparr>cache := obj_set (cache s) key None, keys := remove1 key (keys s)\<rparr>)) k \<noteq> None"
    using cache_inv_keys[OF inv, of k] cache_inv_distinct[OF inv] by simp
next
  fix k e
  assume "obj_get (cache (s\<lparr>cache := obj_set (cache s) key None, keys := remove1 key (keys s)\<rparr>)) k = Some e"
  then have "obj_get (cache s) k = Some e" by (simp split: if_splits)
  from cache_inv_inst[OF inv this]
  show "\<exists>c. componentInstance e = Some c
          \<and> c \<notin> set (destroyed_log (s\<lparr>cache := obj_set (cache s) key None, keys := remove1 key (keys s)\<rparr>))"
    by simp
next
  fix k k' e e'
  assume "obj_get (cache (s\<lparr>cache := obj_set (cache s) key None, keys := remove1 key (keys s)\<rparr>)) k = Some e"
    and "obj_get (cache (s\<lparr>cache := obj_set (cache s) key None, keys := remove1 key (keys s)\<rparr>)) k' = Some e'"
    and eq: "componentInstance e = componentInstance e'"
  then have "obj_get (cache s) k = Some e" "obj_get (cache s) k' = Some e'"
    by (simp_all split: if_splits)
  then show "k = k'" using cache_inv_inj[OF inv] eq by blast
qed (simp_all add: cache_inv_props[OF inv] cache_inv_distinct[OF inv] cache_inv_log[OF inv] distinct_obj_set)

lemma cache_inv_log_append:
  assumes inv: "cache_inv s" and c: "c \<notin> set (destroyed_log s)"
    and nh: "\<And>k e. obj_get (cache s) k = Some e \<Longrightarrow> componentInstance e \<noteq> Some c"
  shows "cache_inv (s\<lparr>destroyed_log := destroyed_log s @ [c]\<rparr>)"
proof (rule cache_invI)
  fix k e
  assume e: "obj_get (cache (s\<lparr>destroyed_log := destroyed_log s @ [c]\<rparr>)) k = Some e"
  then have e': "obj_get (cache s) k = Some e" by simp
  from cache_inv_inst[OF inv e'] nh[OF e']
  show "\<exists>c'. componentInstance e = Some c'
          \<and> c' \<notin> set (destroyed_log (s\<lparr>destroyed_log := destroyed_log s @ [c]\<rparr>))"
    by auto
next
  fix k k' e e'
  assume "obj_get (cache (s\<lparr>destroyed_log := destroyed_log s @ [c]\<rparr>)) k = Some e"
    and "obj_get (cache (s\<lparr>destroyed_log := destroyed_log s @ [c]\<rparr>)) k' = Some e'"
    and "componentInstance e = componentInstance e'"
  then show "k = k'" using cache_inv_inj[OF inv, of k e k' e'] by simp
qed (simp_all add: cache_inv_props[OF inv] cache_inv_distinct[OF inv] cache_inv_log[OF inv]
       cache_inv_keys[OF inv] c)

lemma pruneCacheEntry_cache_inv:
  assumes inv: "cache_inv s" and run: "pruneCacheEntry key cur s = Inr s'"
  shows "cache_inv s'"
proof (cases "obj_get (cache s) key")
  case None
  with run[symmetric] have "s' = s\<lparr>cache := obj_set (cache s) key None, keys := remove1 key (keys s)\<rparr>"
    by (simp add: pruneCacheEntry_eq)
  then show ?thesis using cache_inv_tombstone[OF inv] by simp
next
  case (Some e)
  show ?thesis
  proof (cases "must_destroy e cur")
    case False
    with Some run[symmetric] have "s' = s\<lparr>cache := obj_set (cache s) key None, keys := remove1 key (keys s)\<rparr>"
      by (simp add: pruneCacheEntry_eq)
    then show ?thesis using cache_inv_tombstone[OF inv] by simp
  next
    case True
    from cache_inv_inst[OF inv Some] obtain c where c: "componentInstance e = Some c" by blast
    let ?t = "s\<lparr>cache := obj_set (cache s) key None, keys := remove1 key (keys s)\<rparr>"
    have t: "cache_inv ?t" by (rule cache_inv_tombstone[OF inv])
    have fresh: "c \<notin> set (destroyed_log ?t)"
      using cache_inv_inst[OF inv Some] c by simp
    have nh: "componentInstance e' \<noteq> Some c" if "obj_get (cache ?t) k = Some e'" for k e'
    proof -
      from that have "k \<noteq> key" "obj_get (cache s) k = Some e'" by (simp_all split: if_splits)
      then show ?thesis using cache_inv_inj[OF inv Some, of k e'] c by auto
    qed
    have "s' = ?t\<lparr>destroyed_log := destroyed_log ?t @ [c]\<rparr>"
      using Some True c run[symmetric] by (simp add: pruneCacheEntry_eq)
    then show ?thesis using cache_inv_log_append[OF t fresh nh] by simp
  qed
qed

lemma pruneCacheEntry_staged_ok:
  assumes "staged_ok s" and "pruneCacheEntry key cur s = Inr s'"
  shows "staged_ok s'"
  using assms
  unfolding staged_ok_def pruneCacheEntry_eq
  by (auto split: option.splits if_splits)

subsection \<open>Loops, promotion and admission keep the invariant\<close>

lemma for_each_inv:
  assumes step: "\<And>k s. P s \<Longrightarrow> \<exists>s'. body k s = Inr s' \<and> P s' \<and> R s s'"
    and refl: "\<And>s. R s s"
    and trans: "\<And>a b c. R a b \<Longrightarrow> R b c \<Longrightarrow> R a c"
    and "P s"
  shows "\<exists>s'. for_each body ks s = Inr s' \<and> P s' \<and> R s s'"
  using \<open>P s\<close>
proof (induction ks arbitrary: s)
  case Nil
  then show ?case by (simp add: refl)
next
  case (Cons k ks)
  from step[OF Cons.prems] obtain s1 where s1: "body k s = Inr s1" "P s1" "R s s1" by blast
  from Cons.IH[OF s1(2)] obtain s' where "for_each body ks s1 = Inr s'" "P s'" "R s1 s'" by blast
  with s1 show ?case using trans by auto
qed

lemma cache_inv_fields [simp]:
  "cache_inv (s\<lparr>vnodeToCache := a\<rparr>) = cache_inv s"
  "cache_inv (s\<lparr>keyToCache := b\<rparr>) = cache_inv s"
  "cache_inv (s\<lparr>cur_vnode := c\<rparr>) = cache_inv s"
  "cache_inv (s\<lparr>include_prop := d\<rparr>) = cache_inv s"
  "cache_inv (s\<lparr>exclude_prop := e\<rparr>) = cache_inv s"
  "cache_inv (s\<lparr>max_prop := f\<rparr>) = cache_inv s"
  "cache_inv (s\<lparr>lastIndex := h\<rparr>) = cache_inv s"
  by (simp_all add: cache_inv_def)

lemma staged_ok_fields [simp]:
  "staged_ok (s\<lparr>cur_vnode := c\<rparr>) = staged_ok s"
  "staged_ok (s\<lparr>include_prop := d\<rparr>) = staged_ok s"
  "staged_ok (s\<lparr>exclude_prop := e\<rparr>) = staged_ok s"
  "staged_ok (s\<lparr>max_prop := f\<rparr>) = staged_ok s"
  "staged_ok (s\<lparr>keys := g\<rparr>) = staged_ok s"
  "staged_ok (s\<lparr>destroyed_log := h\<rparr>) = staged_ok s"
  "staged_ok (s\<lparr>lastIndex := i\<rparr>) = staged_ok s"
  "staged_ok (s\<lparr>vnodeToCache := None\<rparr>)"
  by (simp_all add: staged_ok_def)

lemma store_inv_lastIndex [simp]: "store_inv (s\<lparr>lastIndex := h\<rparr>) = store_inv s"
  by (simp add: store_inv_def)

lemma cache_inv_promote:
  assumes inv: "cache_inv s" and e: "obj_get (cache s) key = Some e"
  shows "cache_inv (s\<lparr>keys := remove1 key (keys s) @ [key]\<rparr>)"
proof (rule cache_invI)
  fix k
  have "key \<in> set (keys s)" using cache_inv_keys[OF inv, of key] e by simp
  then show "k \<in> set (keys (s\<lparr>keys := remove1 key (keys s) @ [key]\<rparr>))
        \<longleftrightarrow> obj_get (cache (s\<lparr>keys := remove1 key (keys s) @ [key]\<rparr>)) k \<noteq> None"
    using cache_inv_keys[OF inv, of k] cache_inv_distinct[OF inv] by auto
next
  fix k e'
  assume "obj_get (cache (s\<lparr>keys := remove1 key (keys s) @ [key]\<rparr>)) k = Some e'"
  then show "\<exists>c. componentInstance e' = Some c
          \<and> c \<notin> set (destroyed_log (s\<lparr>keys := remove1 key (keys s) @ [key]\<rparr>))"
    using cache_inv_inst[OF inv, of k e'] by simp
next
  fix k k' e1 e2
  assume "obj_get (cache (s\<lparr>keys := remove1 key (keys s) @ [key]\<rparr>)) k = Some e1"
    and "obj_get (cache (s\<lparr>keys := remove1 key (keys s) @ [key]\<rparr>)) k' = Some e2"
    and "componentInstance e1 = componentInstance e2"
  then show "k = k'" using cache_inv_inj[OF inv, of k e1 k' e2] by simp
qed (simp_all add: cache_inv_props[OF inv] cache_inv_distinct[OF inv] cache_inv_log[OF inv])

lemma cache_inv_admit:
  assumes inv: "cache_inv s" and free: "obj_get (cache s) k0 = None"
    and c: "componentInstance e0 = Some c" and fresh: "c \<notin> set (destroyed_log s)"
    and nh: "\<And>k e. obj_get (cache s) k = Some e \<Longrightarrow> componentInstance e \<noteq> Some c"
  shows "cache_inv (s\<lparr>cache := obj_set (cache s) k0 (Some e0), keys := keys s @ [k0]\<rparr>)"
    (is "cache_inv ?t")
proof (rule cache_invI)
  show "distinct (keys ?t)"
    using cache_inv_distinct[OF inv] cache_inv_keys[OF inv, of k0] free by simp
next
  fix k
  show "k \<in> set (keys ?t) \<longleftrightarrow> obj_get (cache ?t) k \<noteq> None"
    using cache_inv_keys[OF inv, of k] by auto
next
  fix k e
  assume a: "obj_get (cache ?t) k = Some e"
  show "\<exists>c. componentInstance e = Some c \<and> c \<notin> set (destroyed_log ?t)"
  proof (cases "k = k0")
    case True
    then have "e = e0" using a by simp
    then show ?thesis using c fresh by simp
  next
    case False
    then have "obj_get (cache s) k = Some e" using a by simp
    then show ?thesis using cache_inv_inst[OF inv] by simp
  qed
next
  fix k k' e e'
  assume a: "obj_get (cache ?t) k = Some e" and b: "obj_get (cache ?t) k' = Some e'"
    and eq: "componentInstance e = componentInstance e'"
  show "k = k'"
  proof (cases "k = k0")
    case True
    then have e: "e = e0" using a by simp
    show ?thesis
    proof (rule ccontr)
      assume "k \<noteq> k'"
      then have "obj_get (cache s) k' = Some e'" using b True by (simp split: if_splits)
      from nh[OF this] show False using eq e c by simp
    qed
  next
    case False
    then have a': "obj_get (cache s) k = Some e" using a by simp
    show ?thesis
    proof (cases "k' = k0")
      case True
      then have "e' = e0" using b by simp
      then show ?thesis using nh[OF a'] eq c by simp
    next
      case False
      then have "obj_get (cache s) k' = Some e'" using b by simp
      then show ?thesis using cache_inv_inj[OF inv a'] eq by blast
    qed
  qed
qed (simp_all add: cache_inv_props[OF inv] cache_inv_log[OF inv] distinct_obj_set)

subsection \<open>Operations that only remove\<close>

lemma shrinks_refl: "shrinks s s"
  by (simp add: shrinks_def)

lemma shrinks_trans:
  assumes ab: "shrinks a b" and bc: "shrinks b c"
  shows "shrinks a c"
proof -
  from ab obtain n1 where n1: "destroyed_log b = destroyed_log a @ n1"
    "\<And>x. x \<in> set n1 \<Longrightarrow> \<exists>k e. obj_get (cache a) k = Some e \<and> componentInstance e = Some x
                   \<and> obj_get (cache b) k = None \<and> k \<notin> set (keys b)"
    unfolding shrinks_def by blast
  from bc obtain n2 where n2: "destroyed_log c = destroyed_log b @ n2"
    "\<And>x. x \<in> set n2 \<Longrightarrow> \<exists>k e. obj_get (cache b) k = Some e \<and> componentInstance e = Some x
                   \<and> obj_get (cache c) k = None \<and> k \<notin> set (keys c)"
    unfolding shrinks_def by blast
  have mono_ab: "\<And>k e. obj_get (cache b) k = Some e \<Longrightarrow> obj_get (cache a) k = Some e"
    using ab unfolding shrinks_def by blast
  have mono_bc: "\<And>k e. obj_get (cache c) k = Some e \<Longrightarrow> obj_get (cache b) k = Some e"
    using bc unfolding shrinks_def by blast
  have keys_bc: "set (keys c) \<subseteq> set (keys b)" using bc unfolding shrinks_def by blast
  have gone: "\<exists>k e. obj_get (cache a) k = Some e \<and> componentInstance e = Some x
                   \<and> obj_get (cache c) k = None \<and> k \<notin> set (keys c)"
    if "x \<in> set (n1 @ n2)" for x
  proof (cases "x \<in> set n1")
    case True
    from n1(2)[OF this] obtain k e where ke: "obj_get (cache a) k = Some e"
      "componentInstance e = Some x" "obj_get (cache b) k = None" "k \<notin> set (keys b)" by blast
    have "obj_get (cache c) k = None"
    proof (cases "obj_get (cache c) k")
      case (Some e')
      from mono_bc[OF this] ke(3) show ?thesis by simp
    qed simp
    moreover have "k \<notin> set (keys c)" using ke(4) keys_bc by blast
    ultimately show ?thesis using ke(1,2) by blast
  next
    case False
    with that have "x \<in> set n2" by simp
    from n2(2)[OF this] obtain k e where ke: "obj_get (cache b) k = Some e"
      "componentInstance e = Some x" "obj_get (cache c) k = None" "k \<notin> set (keys c)" by blast
    from mono_ab[OF ke(1)] ke(2,3,4) show ?thesis by blast
  qed
  have log: "destroyed_log c = destroyed_log a @ (n1 @ n2)" using n1(1) n2(1) by simp
  have rest: "(\<forall>k e. obj_get (cache c) k = Some e \<longrightarrow> obj_get (cache a) k = Some e)
     \<and> set (keys c) \<subseteq> set (keys a)
     \<and> length (keys c) \<le> length (keys a)"
    using ab bc mono_ab mono_bc unfolding shrinks_def by auto
  show ?thesis
    unfolding shrinks_def using rest log gone by blast
qed

lemma only_removes_refl: "only_removes s s"
  by (simp add: only_removes_def shrinks_refl)

lemma shrinks_lastIndex [simp]:
  "shrinks a (b\<lparr>lastIndex := h\<rparr>) = shrinks a b"
  "shrinks (a\<lparr>lastIndex := h\<rparr>) b = shrinks a b"
  by (simp_all add: shrinks_def)

lemma only_removes_lastIndex [simp]:
  "only_removes a (b\<lparr>lastIndex := h\<rparr>) = only_removes a b"
  "only_removes (a\<lparr>lastIndex := h\<rparr>) b = only_removes a b"
  by (simp_all add: only_removes_def)

lemma pruneCacheEntry_lastIndex:
  "pruneCacheEntry key cur s = Inr s' \<Longrightarrow> lastIndex s' = lastIndex s"
  by (cases "obj_get (cache s) key")
     (auto simp: pruneCacheEntry_eq split: if_splits option.splits)

lemma only_removes_trans: "only_removes a b \<Longrightarrow> only_removes b c \<Longrightarrow> only_removes a c"
  unfolding only_removes_def using shrinks_trans by auto

lemma pruneCacheEntry_only_removes:
  assumes inv: "cache_inv s" and run: "pruneCacheEntry key cur s = Inr s'"
  shows "only_removes s s'"
proof -
  have notin: "key \<notin> set (remove1 key (keys s))"
    using cache_inv_distinct[OF inv] by simp
  have len: "length (remove1 key (keys s)) \<le> length (keys s)"
    by (simp add: length_remove1)
  have sub: "set (remove1 key (keys s)) \<subseteq> set (keys s)" by (rule set_remove1_subset)
  show ?thesis
  proof (cases "obj_get (cache s) key")
    case None
    with run[symmetric] have s': "s' = s\<lparr>cache := obj_set (cache s) key None, keys := remove1 key (keys s)\<rparr>"
      by (simp add: pruneCacheEntry_eq)
    show ?thesis unfolding only_removes_def shrinks_def s' using len sub by (simp split: if_splits)
  next
    case (Some e)
    show ?thesis
    proof (cases "must_destroy e cur")
      case False
      with Some run[symmetric] have s': "s' = s\<lparr>cache := obj_set (cache s) key None, keys := remove1 key (keys s)\<rparr>"
        by (simp add: pruneCacheEntry_eq)
      show ?thesis unfolding only_removes_def shrinks_def s' using len sub by (simp split: if_splits)
    next
      case True
      from cache_inv_inst[OF inv Some] obtain c where c: "componentInstance e = Some c" by blast
      have s': "s' = s\<lparr>cache := obj_set (cache s) key None, keys := remove1 key (keys s),
                        destroyed_log := destroyed_log s @ [c]\<rparr>"
        using Some True c run[symmetric] by (simp add: pruneCacheEntry_eq)
      have "\<exists>k e. obj_get (cache s) k = Some e \<and> componentInstance e = Some c
                   \<and> obj_get (cache s') k = None \<and> k \<notin> set (keys s')"
        using Some c notin unfolding s' by (intro exI[of _ key] exI[of _ e]) simp
      then show ?thesis unfolding only_removes_def shrinks_def using len sub
        by (simp add: s' split: if_splits)
    qed
  qed
qed

subsection \<open>The cases of \<open>render\<close>\<close>

lemma render_uncached:
  assumes "componentOptions v = Some co"
    and "fst (not_cached (local_getComponentName (Some co)) (include_prop s) (exclude_prop s)
                (lastIndex s))"
  shows "render (Some v) slot0 s =
           Inr (Some v, s\<lparr>lastIndex := snd (not_cached (local_getComponentName (Some co))
                                              (include_prop s) (exclude_prop s) (lastIndex s))\<rparr>)"
  using assms by (simp add: render_def Let_def)

lemma render_hit:
  assumes "componentOptions v = Some co"
    and "\<not> fst (not_cached (local_getComponentName (Some co)) (include_prop s) (exclude_prop s)
                  (lastIndex s))"
    and "vnode_data v = Some d"
    and "obj_get (cache s) (vnode_cache_key v co) = Some e"
  shows "render (Some v) slot0 s =
           Inr (Some (v\<lparr>vnode_componentInstance := componentInstance e,
                        vnode_data := Some (d\<lparr>keepAlive := True\<rparr>)\<rparr>),
                s\<lparr>keys := remove1 (vnode_cache_key v co) (keys s) @ [vnode_cache_key v co],
                   lastIndex := snd (not_cached (local_getComponentName (Some co))
                                       (include_prop s) (exclude_prop s) (lastIndex s))\<rparr>)"
  using assms by (simp add: render_def remove_arr_def Let_def)

lemma render_miss:
  assumes "componentOptions v = Some co"
    and "\<not> fst (not_cached (local_getComponentName (Some co)) (include_prop s) (exclude_prop s)
                  (lastIndex s))"
    and "vnode_data v = Some d"
    and "obj_get (cache s) (vnode_cache_key v co) = None"
  shows "render (Some v) slot0 s =
           Inr (Some (v\<lparr>vnode_data := Some (d\<lparr>keepAlive := True\<rparr>)\<rparr>),
                s\<lparr>vnodeToCache := Some (v\<lparr>vnode_data := Some (d\<lparr>keepAlive := True\<rparr>)\<rparr>),
                   keyToCache := Some (vnode_cache_key v co),
                   lastIndex := snd (not_cached (local_getComponentName (Some co))
                                       (include_prop s) (exclude_prop s) (lastIndex s))\<rparr>)"
  using assms by (simp add: render_def Let_def)

lemma render_state:
  assumes ok: "host_ok s (Render vnode slot0)"
  shows "\<exists>r s' h. render vnode slot0 s = Inr (r, s')
           \<and> (s' = s\<lparr>lastIndex := h\<rparr>
               \<or> (\<exists>key e. obj_get (cache s) key = Some e
                     \<and> s' = s\<lparr>keys := remove1 key (keys s) @ [key], lastIndex := h\<rparr>)
               \<or> (\<exists>key v1. obj_get (cache s) key = None
                     \<and> s' = s\<lparr>vnodeToCache := Some v1, keyToCache := Some key, lastIndex := h\<rparr>))"
proof (cases vnode)
  case None
  have "render vnode slot0 s = Inr (slot0, s\<lparr>lastIndex := lastIndex s\<rparr>)"
    using None by (simp add: render_def)
  then show ?thesis by blast
next
  case (Some v)
  show ?thesis
  proof (cases "componentOptions v")
    case None
    have "render vnode slot0 s = Inr (Some v, s\<lparr>lastIndex := lastIndex s\<rparr>)"
      using None Some by (simp add: render_def)
    then show ?thesis by blast
  next
    case co: (Some co)
    let ?t = "not_cached (local_getComponentName (Some co)) (include_prop s) (exclude_prop s)
                (lastIndex s)"
    show ?thesis
    proof (cases "fst ?t")
      case True
      from render_uncached[OF co True, of slot0] show ?thesis unfolding Some by blast
    next
      case False
      from ok Some co obtain d where d: "vnode_data v = Some d" by auto
      show ?thesis
      proof (cases "obj_get (cache s) (vnode_cache_key v co)")
        case None
        from render_miss[OF co False d None, of slot0] None show ?thesis unfolding Some by blast
      next
        case e: (Some e)
        from render_hit[OF co False d e, of slot0] e show ?thesis unfolding Some by blast
      qed
    qed
  qed
qed

lemma step_Render_inv:
  assumes inv: "store_inv s" and ok: "host_ok s (Render vnode slot0)"
  shows "\<exists>s'. step (Render vnode slot0) s = Inr s' \<and> store_inv s' \<and> shrinks s s'
           \<and> destroyed_log s' = destroyed_log s \<and> cache s' = cache s
           \<and> max_prop s' = max_prop s"
proof -
  from render_state[OF ok] obtain r s' h where r: "render vnode slot0 s = Inr (r, s')"
    and c: "s' = s\<lparr>lastIndex := h\<rparr>
               \<or> (\<exists>key e. obj_get (cache s) key = Some e
                     \<and> s' = s\<lparr>keys := remove1 key (keys s) @ [key], lastIndex := h\<rparr>)
               \<or> (\<exists>key v1. obj_get (cache s) key = None
                     \<and> s' = s\<lparr>vnodeToCache := Some v1, keyToCache := Some key, lastIndex := h\<rparr>)"
    by blast
  have ci: "cache_inv s" and so: "staged_ok s" using inv by (simp_all add: store_inv_def)
  from c have "store_inv s' \<and> shrinks s s'
           \<and> destroyed_log s' = destroyed_log s \<and> cache s' = cache s \<and> max_prop s' = max_prop s"
  proof (elim disjE exE conjE)
    assume "s' = s\<lparr>lastIndex := h\<rparr>"
    then show ?thesis using inv by (simp add: shrinks_refl)
  next
    fix key e
    assume e: "obj_get (cache s) key = Some e"
      and s': "s' = s\<lparr>keys := remove1 key (keys s) @ [key], lastIndex := h\<rparr>"
    have mem: "key \<in> set (keys s)" using cache_inv_keys[OF ci, of key] e by simp
    have len: "length (remove1 key (keys s) @ [key]) = length (keys s)"
    proof -
      from mem have "length (keys s) \<noteq> 0" by auto
      then show ?thesis using mem by (simp add: length_remove1)
    qed
    have sub: "set (remove1 key (keys s) @ [key]) \<subseteq> set (keys s)"
      using mem set_remove1_subset[of key "keys s"] by auto
    have "store_inv (s\<lparr>keys := remove1 key (keys s) @ [key]\<rparr>)"
      unfolding store_inv_def using cache_inv_promote[OF ci e] so by simp
    then have "store_inv s'" by (simp add: s')
    moreover have "shrinks s s'"
      unfolding shrinks_def s' using len sub by simp
    ultimately show ?thesis by (simp add: s')
  next
    fix key v1
    assume n: "obj_get (cache s) key = None"
      and s': "s' = s\<lparr>vnodeToCache := Some v1, keyToCache := Some key, lastIndex := h\<rparr>"
    have "store_inv s'"
      unfolding store_inv_def s' using ci n by (simp add: staged_ok_def)
    moreover have "shrinks s s'"
      unfolding shrinks_def s' by simp
    ultimately show ?thesis by (simp add: s')
  qed
  then show ?thesis using r by simp
qed

subsection \<open>The commit by \<open>cacheVNode\<close>\<close>

lemma cacheVNode_none: "vnodeToCache s = None \<Longrightarrow> cacheVNode s = Inr s"
  by (simp add: cacheVNode_def)

lemma cacheVNode_staged:
  assumes "vnodeToCache s = Some v" and "keyToCache s = Some k"
  shows "cacheVNode s =
           (if overflows (admitted v k s)
            then (case pruneCacheEntry (hd (keys s @ [k])) (cur_vnode s) (admitted v k s) of
                    Inl e \<Rightarrow> Inl e
                  | Inr s2 \<Rightarrow> Inr (s2\<lparr>vnodeToCache := None\<rparr>))
            else Inr ((admitted v k s)\<lparr>vnodeToCache := None\<rparr>))"
  using assms by (simp add: cacheVNode_def admitted_def entry_of_def overflows_def Let_def)

lemma shrinks_destroyed_with_removal: "shrinks s s' \<Longrightarrow> destroyed_with_removal x s s'"
  unfolding shrinks_def destroyed_with_removal_def by blast

lemma admitted_cache_inv:
  assumes inv: "store_inv s" and ok: "host_ok s CacheVNode"
    and v: "vnodeToCache s = Some v" and k: "keyToCache s = Some k"
  shows "cache_inv (admitted v k s)"
proof -
  have ci: "cache_inv s" using inv by (simp add: store_inv_def)
  have free: "obj_get (cache s) k = None"
    using inv v k by (auto simp: store_inv_def staged_ok_def)
  from ok v obtain c where c: "vnode_componentInstance v = Some c"
    "c \<notin> set (destroyed_log s)" "not_held c (cache s)"
    by (auto split: option.splits)
  have nh: "\<And>k e. obj_get (cache s) k = Some e \<Longrightarrow> componentInstance e \<noteq> Some c"
    using c(3) not_held_iff[OF cache_inv_props[OF ci]] by blast
  have "componentInstance (entry_of v) = Some c" using c(1) by (simp add: entry_of_def)
  from cache_inv_admit[OF ci free this c(2) nh] show ?thesis by (simp add: admitted_def)
qed

lemma cacheVNode_inv:
  assumes inv: "store_inv s" and ok: "host_ok s CacheVNode"
  shows "\<exists>s'. cacheVNode s = Inr s' \<and> store_inv s' \<and> destroyed_with_removal CacheVNode s s'
           \<and> max_prop s' = max_prop s"
proof (cases "vnodeToCache s")
  case None
  then show ?thesis using inv
    by (simp add: cacheVNode_none shrinks_destroyed_with_removal shrinks_refl)
next
  case (Some v)
  with inv obtain k where k: "keyToCache s = Some k" "obj_get (cache s) k = None"
    by (auto simp: store_inv_def staged_ok_def)
  let ?s1 = "admitted v k s"
  have ci1: "cache_inv ?s1" by (rule admitted_cache_inv[OF inv ok Some k(1)])
  show ?thesis
  proof (cases "overflows ?s1")
    case False
    then have eq: "cacheVNode s = Inr (?s1\<lparr>vnodeToCache := None\<rparr>)"
      by (simp add: cacheVNode_staged[OF Some k(1)])
    have "store_inv (?s1\<lparr>vnodeToCache := None\<rparr>)"
      using ci1 by (simp add: store_inv_def)
    moreover have "destroyed_with_removal CacheVNode s (?s1\<lparr>vnodeToCache := None\<rparr>)"
      by (simp add: destroyed_with_removal_def admitted_def)
    moreover have "max_prop (?s1\<lparr>vnodeToCache := None\<rparr>) = max_prop s"
      by (simp add: admitted_def)
    ultimately show ?thesis using eq by simp
  next
    case True
    from pruneCacheEntry_ok[OF ci1] obtain s2
      where s2: "pruneCacheEntry (hd (keys s @ [k])) (cur_vnode s) ?s1 = Inr s2" by blast
    have eq: "cacheVNode s = Inr (s2\<lparr>vnodeToCache := None\<rparr>)"
      using True s2 by (simp add: cacheVNode_staged[OF Some k(1)])
    have ci2: "cache_inv s2" by (rule pruneCacheEntry_cache_inv[OF ci1 s2])
    have rm: "only_removes ?s1 s2" by (rule pruneCacheEntry_only_removes[OF ci1 s2])
    then obtain new where new: "destroyed_log s2 = destroyed_log ?s1 @ new"
      "\<And>c. c \<in> set new \<Longrightarrow> \<exists>k' e. obj_get (cache ?s1) k' = Some e \<and> componentInstance e = Some c
                   \<and> obj_get (cache s2) k' = None \<and> k' \<notin> set (keys s2)"
      unfolding only_removes_def shrinks_def by blast
    have gone: "\<exists>k'. obj_get (cache s2) k' = None \<and> k' \<notin> set (keys s2)
               \<and> ((\<exists>e. obj_get (cache s) k' = Some e \<and> componentInstance e = Some c)
                    \<or> (keyToCache s = Some k'
                        \<and> (\<exists>v. vnodeToCache s = Some v \<and> vnode_componentInstance v = Some c)))"
      if "c \<in> set new" for c
    proof -
      from new(2)[OF that] obtain k' e where ke: "obj_get (cache ?s1) k' = Some e"
        "componentInstance e = Some c" "obj_get (cache s2) k' = None" "k' \<notin> set (keys s2)"
        by blast
      show ?thesis
      proof (cases "k' = k")
        case True
        then have "e = entry_of v" using ke(1) by (simp add: admitted_def)
        then have "vnode_componentInstance v = Some c" using ke(2) by (simp add: entry_of_def)
        then show ?thesis using True ke(3,4) k(1) Some by blast
      next
        case False
        then have "obj_get (cache s) k' = Some e" using ke(1) by (simp add: admitted_def)
        then show ?thesis using ke(2,3,4) by blast
      qed
    qed
    have "store_inv (s2\<lparr>vnodeToCache := None\<rparr>)"
      using ci2 by (simp add: store_inv_def)
    moreover have "destroyed_with_removal CacheVNode s (s2\<lparr>vnodeToCache := None\<rparr>)"
      unfolding destroyed_with_removal_def
      using new(1) gone by (intro exI[of _ new]) (simp add: admitted_def)
    moreover have "max_prop (s2\<lparr>vnodeToCache := None\<rparr>) = max_prop s"
      using rm by (simp add: only_removes_def admitted_def)
    ultimately show ?thesis using eq by simp
  qed
qed

subsection \<open>Matching a name against a specification\<close>

lemma split_on_not_Nil: "split_on c s \<noteq> []"
  by (induction s) (auto split: list.splits)

lemma split_on_no_sep_inside: "list_all (\<lambda>seg. c \<notin> set seg) (split_on c s)"
  by (induction s) (auto split: list.splits)

lemma join_with_push: "join_with c ((x # y) # ys) = x # join_with c (y # ys)"
  by (cases ys) simp_all

lemma join_with_split_on: "join_with c (split_on c s) = s"
proof (induction s)
  case Nil
  then show ?case by simp
next
  case (Cons x xs)
  obtain y ys where sp: "split_on c xs = y # ys"
    using split_on_not_Nil[of c xs] by (cases "split_on c xs") auto
  show ?case
  proof (cases "x = c")
    case True
    then show ?thesis using Cons.IH by (simp add: sp)
  next
    case False
    then show ?thesis using Cons.IH by (simp add: sp join_with_push)
  qed
qed

lemma split_on_plain: "c \<notin> set x \<Longrightarrow> split_on c x = [x]"
  by (induction x) auto

lemma split_on_segment: "c \<notin> set x \<Longrightarrow> split_on c (x @ c # rest) = x # split_on c rest"
  by (induction x) auto

lemma split_on_join_with:
  "segs \<noteq> [] \<Longrightarrow> list_all (\<lambda>seg. c \<notin> set seg) segs \<Longrightarrow> split_on c (join_with c segs) = segs"
proof (induction c segs rule: join_with.induct)
  case (1 c)
  then show ?case by simp
next
  case (2 c x)
  then show ?case by (simp add: split_on_plain)
next
  case (3 c x y ys)
  then show ?case by (simp add: split_on_segment)
qed

lemma is_segment_of_iff: "is_segment_of n str \<longleftrightarrow> n \<in> set (split_on CHR '','' str)"
proof
  assume "is_segment_of n str"
  then obtain segs where s: "segs \<noteq> []" "list_all (\<lambda>seg. CHR '','' \<notin> set seg) segs"
    "str = join_with CHR '','' segs" "n \<in> set segs"
    unfolding is_segment_of_def by blast
  from split_on_join_with[OF s(1,2)] s(3,4) show "n \<in> set (split_on CHR '','' str)" by simp
next
  assume "n \<in> set (split_on CHR '','' str)"
  then show "is_segment_of n str"
    unfolding is_segment_of_def
    using split_on_not_Nil[of "CHR '',''" str] split_on_no_sep_inside[of "CHR '',''" str]
      join_with_split_on[of "CHR '',''" str]
    by (intro exI[of _ "split_on CHR '','' str"]) simp
qed

lemma matches_refined:
  "fst (matches p n h) = spec_matches p n h" "snd (matches p n h) = lastIndex_after p n h"
  by (cases p; simp add: is_segment_of_iff)+

lemma is_set_truthy: "truthy_pattern p \<longleftrightarrow> is_set p"
  by (cases p) (simp_all add: is_set_def)

lemma present_truthy: "truthy nm \<longleftrightarrow> present nm"
  by (cases nm) (simp_all add: truthy_def present_def)

lemma include_filter_include_test: "include_filter val = include_test val"
  by (intro ext) (simp add: include_filter_def include_test_def matches_refined prod_eq_iff)

lemma exclude_filter_exclude_test: "exclude_filter val = exclude_test val"
  by (intro ext) (simp add: exclude_filter_def exclude_test_def matches_refined)

subsection \<open>The loops of \<open>pruneCache\<close> and \<open>destroyed\<close>\<close>

lemma obj_set_same: "map_of c k = Some v \<Longrightarrow> obj_set c k v = c"
  by (induction c k v rule: obj_set.induct) (auto split: if_splits)

lemma pruneCacheEntry_tombstone_noop:
  assumes inv: "cache_inv s" and n: "obj_get (cache s) key = None"
    and p: "key \<in> set (map fst (cache s))"
  shows "pruneCacheEntry key cur s = Inr s"
proof -
  from p obtain v where v: "map_of (cache s) key = Some v"
    by (metis map_of_eq_None_iff not_None_eq set_map)
  with n have "v = None" by (cases v) (simp_all add: obj_get_def)
  with v have c: "obj_set (cache s) key None = cache s" by (simp add: obj_set_same)
  have "key \<notin> set (keys s)" using cache_inv_keys[OF inv, of key] n by simp
  then have k: "remove1 key (keys s) = keys s" by (rule remove1_idem)
  show ?thesis using n c k by (simp add: pruneCacheEntry_eq)
qed

lemma filter_neq_id: "k \<notin> set xs \<Longrightarrow> filter (\<lambda>x. x \<noteq> k) xs = xs"
  by (induction xs) auto

lemma remove1_filter: "distinct xs \<Longrightarrow> remove1 k xs = filter (\<lambda>x. x \<noteq> k) xs"
  by (induction xs) (auto simp: filter_neq_id)

lemma cond_prune_step:
  assumes inv: "cache_inv s"
  shows "\<exists>s1. cond_prune Q cur k s = Inr s1 \<and> cache_inv s1 \<and> only_removes s s1
           \<and> (\<forall>k'. obj_get (cache s1) k' = (if k' = k \<and> pruned Q (cache s) k then None
                                              else obj_get (cache s) k'))
           \<and> keys s1 = filter (\<lambda>k'. \<not> (k' = k \<and> pruned Q (cache s) k)) (keys s)
           \<and> destroyed_log s1 = destroyed_log s @ destroy_calls Q cur (cache s) [k]"
proof (cases "pruned Q (cache s) k")
  case False
  then have "cond_prune Q cur k s = Inr s"
    by (simp add: cond_prune_def pruned_def split: option.splits)
  moreover have "destroy_calls Q cur (cache s) [k] = []"
  proof (cases "obj_get (cache s) k")
    case None
    then show ?thesis by (simp add: destroy_calls_def)
  next
    case (Some e)
    with False have "\<not> Q e" by (simp add: pruned_def)
    with Some show ?thesis by (simp add: destroy_calls_def)
  qed
  ultimately show ?thesis using inv False by (simp add: only_removes_refl)
next
  case True
  then obtain e where e: "obj_get (cache s) k = Some e" "Q e"
    by (auto simp: pruned_def split: option.splits)
  from cache_inv_inst[OF inv e(1)] obtain c where c: "componentInstance e = Some c" by blast
  from pruneCacheEntry_ok[OF inv] obtain s1 where s1: "pruneCacheEntry k cur s = Inr s1" by blast
  have run: "cond_prune Q cur k s = Inr s1" using e s1 by (simp add: cond_prune_def)
  have keys: "remove1 k (keys s) = filter (\<lambda>k'. k' \<noteq> k) (keys s)"
    by (rule remove1_filter[OF cache_inv_distinct[OF inv]])
  have facts: "(\<forall>k'. obj_get (cache s1) k' = (if k' = k then None else obj_get (cache s) k'))
           \<and> keys s1 = filter (\<lambda>k'. k' \<noteq> k) (keys s)
           \<and> destroyed_log s1 = destroyed_log s @ (if must_destroy e cur then [c] else [])"
    using s1[symmetric] e c keys by (cases "must_destroy e cur") (simp_all add: pruneCacheEntry_eq)
  have dc: "destroy_calls Q cur (cache s) [k] = (if must_destroy e cur then [c] else [])"
    using e c by (simp add: destroy_calls_def)
  show ?thesis
    using run pruneCacheEntry_cache_inv[OF inv s1] pruneCacheEntry_only_removes[OF inv s1]
      facts dc True by simp
qed

lemma cond_prune_loop:
  assumes "cache_inv s" and "distinct ks"
  shows "\<exists>s'. for_each (cond_prune Q cur) ks s = Inr s' \<and> cache_inv s' \<and> only_removes s s'
           \<and> (\<forall>k. obj_get (cache s') k = (if k \<in> set ks \<and> pruned Q (cache s) k then None
                                            else obj_get (cache s) k))
           \<and> keys s' = filter (\<lambda>k. \<not> (k \<in> set ks \<and> pruned Q (cache s) k)) (keys s)
           \<and> destroyed_log s' = destroyed_log s @ destroy_calls Q cur (cache s) ks"
  using assms
proof (induction ks arbitrary: s)
  case Nil
  then show ?case by (simp add: only_removes_refl destroy_calls_def)
next
  case (Cons k ks)
  from cond_prune_step[OF Cons.prems(1), of Q cur k] obtain s1 where
    s1: "cond_prune Q cur k s = Inr s1" "cache_inv s1" "only_removes s s1"
      "\<And>k'. obj_get (cache s1) k' = (if k' = k \<and> pruned Q (cache s) k then None
                                              else obj_get (cache s) k')"
      "keys s1 = filter (\<lambda>k'. \<not> (k' = k \<and> pruned Q (cache s) k)) (keys s)"
      "destroyed_log s1 = destroyed_log s @ destroy_calls Q cur (cache s) [k]"
    by blast
  from Cons.prems(2) have dks: "distinct ks" and knot: "k \<notin> set ks" by simp_all
  from Cons.IH[OF s1(2) dks] obtain s' where
    s': "for_each (cond_prune Q cur) ks s1 = Inr s'" "cache_inv s'" "only_removes s1 s'"
      "\<And>k'. obj_get (cache s') k' = (if k' \<in> set ks \<and> pruned Q (cache s1) k' then None
                                            else obj_get (cache s1) k')"
      "keys s' = filter (\<lambda>k'. \<not> (k' \<in> set ks \<and> pruned Q (cache s1) k')) (keys s1)"
      "destroyed_log s' = destroyed_log s1 @ destroy_calls Q cur (cache s1) ks"
    by blast
  have same: "obj_get (cache s1) k' = obj_get (cache s) k'" if "k' \<in> set ks" for k'
    using s1(4)[of k'] that knot by auto
  have pr: "pruned Q (cache s1) k' = pruned Q (cache s) k'" if "k' \<in> set ks" for k'
    using same[OF that] by (simp add: pruned_def)
  have dc: "destroy_calls Q cur (cache s1) ks = destroy_calls Q cur (cache s) ks"
    unfolding destroy_calls_def using same by (intro arg_cong[of _ _ concat] map_cong) simp_all
  have run: "for_each (cond_prune Q cur) (k # ks) s = Inr s'" using s1(1) s'(1) by simp
  have get: "obj_get (cache s') k' = (if k' \<in> set (k # ks) \<and> pruned Q (cache s) k' then None
                                            else obj_get (cache s) k')" for k'
    using s'(4)[of k'] s1(4)[of k'] pr[of k'] by auto
  have keys: "keys s' = filter (\<lambda>k'. \<not> (k' \<in> set (k # ks) \<and> pruned Q (cache s) k')) (keys s)"
    unfolding s'(5) s1(5) filter_filter
    by (intro filter_cong refl) (use pr in auto)
  have log: "destroyed_log s' = destroyed_log s @ destroy_calls Q cur (cache s) (k # ks)"
    unfolding s'(6) s1(6) dc by (simp add: destroy_calls_def)
  from run s'(2) only_removes_trans[OF s1(3) s'(3)] get keys log show ?case by blast
qed

lemma for_each_cong_inv:
  assumes eq: "\<And>k s. k \<in> K \<Longrightarrow> P s \<Longrightarrow> f k s = g k s"
    and pres: "\<And>k s s'. k \<in> K \<Longrightarrow> P s \<Longrightarrow> g k s = Inr s' \<Longrightarrow> P s'"
  shows "set ks \<subseteq> K \<Longrightarrow> P s \<Longrightarrow> for_each f ks s = for_each g ks s"
proof (induction ks arbitrary: s)
  case Nil
  then show ?case by simp
next
  case (Cons k ks)
  have k: "k \<in> K" and ks: "set ks \<subseteq> K" using Cons.prems(1) by simp_all
  have fg: "f k s = g k s" using eq[OF k Cons.prems(2)] .
  show ?case
  proof (cases "g k s")
    case (Inl e)
    then show ?thesis using fg by simp
  next
    case (Inr s1)
    have "P s1" using pres[OF k Cons.prems(2) Inr] .
    from Cons.IH[OF ks this] show ?thesis using fg Inr by simp
  qed
qed

lemma for_each_noop:
  "(\<And>k. k \<in> set ks \<Longrightarrow> body k s = Inr s) \<Longrightarrow> for_each body ks s = Inr s"
  by (induction ks) simp_all

lemma pruneCacheEntry_props:
  assumes "pruneCacheEntry key cur s = Inr s'"
  shows "set (map fst (cache s)) \<subseteq> set (map fst (cache s'))"
proof -
  have "cache s' = obj_set (cache s) key None"
    using assms[symmetric]
    by (cases "obj_get (cache s) key")
       (auto simp: pruneCacheEntry_eq split: if_splits option.splits)
  then show ?thesis by (auto simp: map_fst_obj_set)
qed

lemma cond_prune_props:
  assumes "cond_prune Q cur key s = Inr s'"
  shows "set (map fst (cache s)) \<subseteq> set (map fst (cache s'))"
  using assms pruneCacheEntry_props[of key cur s s']
  by (auto simp: cond_prune_def split: option.splits if_splits)

lemma cond_prune_all:
  assumes inv: "cache_inv s" and p: "key \<in> set (map fst (cache s))"
  shows "pruneCacheEntry key cur s = cond_prune (\<lambda>e. True) cur key s"
proof (cases "obj_get (cache s) key")
  case None
  then show ?thesis using pruneCacheEntry_tombstone_noop[OF inv None p]
    by (simp add: cond_prune_def)
next
  case (Some e)
  then show ?thesis by (simp add: cond_prune_def)
qed

lemma destroyed_cond_prune:
  assumes inv: "cache_inv s"
  shows "destroyed s = for_each (cond_prune (\<lambda>e. True) None) (for_in_keys (cache s)) s"
  unfolding destroyed_def
proof (rule for_each_cong_inv[where P = "\<lambda>t. cache_inv t \<and> set (map fst (cache s)) \<subseteq> set (map fst (cache t))"
      and K = "set (for_in_keys (cache s))"])
  fix k t
  assume "k \<in> set (for_in_keys (cache s))"
    and "cache_inv t \<and> set (map fst (cache s)) \<subseteq> set (map fst (cache t))"
  then show "pruneCacheEntry k None t = cond_prune (\<lambda>e. True) None k t"
    using cond_prune_all[of t k None] by auto
next
  fix k t t'
  assume P: "cache_inv t \<and> set (map fst (cache s)) \<subseteq> set (map fst (cache t))"
    and run: "cond_prune (\<lambda>e. True) None k t = Inr t'"
  from cond_prune_step[of t "\<lambda>e. True" None k] P run have "cache_inv t'" by auto
  moreover have "set (map fst (cache t)) \<subseteq> set (map fst (cache t'))"
    by (rule cond_prune_props[OF run])
  ultimately show "cache_inv t' \<and> set (map fst (cache s)) \<subseteq> set (map fst (cache t'))"
    using P by blast
next
  show "cache_inv s \<and> set (map fst (cache s)) \<subseteq> set (map fst (cache s))"
    using inv by simp
qed simp

lemma pruned_props: "pruned Q c k \<Longrightarrow> k \<in> set (for_in_keys c)"
  by (auto simp: pruned_def split: option.splits dest: obj_get_in)

lemma case_option_ex: "(case x of None \<Rightarrow> False | Some e \<Rightarrow> P e) \<longleftrightarrow> (\<exists>e. x = Some e \<and> P e)"
  by (cases x) simp_all

lemma destroy_calls_one:
  "destroy_calls Q cur cm [k] =
     (case obj_get cm k of
        None \<Rightarrow> []
      | Some e \<Rightarrow>
          if Q e \<and> must_destroy e cur
          then (case componentInstance e of None \<Rightarrow> [] | Some i \<Rightarrow> [i])
          else [])"
  by (simp add: destroy_calls_def)

lemma destroy_calls_single:
  "c \<in> set (destroy_calls Q cur cm [k]) \<longleftrightarrow>
     (case obj_get cm k of None \<Rightarrow> False
      | Some e \<Rightarrow> Q e \<and> must_destroy e cur \<and> componentInstance e = Some c)"
proof (cases "obj_get cm k")
  case None
  then have "destroy_calls Q cur cm [k] = []" by (simp add: destroy_calls_one)
  then show ?thesis using None by simp
next
  case e: (Some e)
  show ?thesis
  proof (cases "Q e \<and> must_destroy e cur")
    case False
    then have "destroy_calls Q cur cm [k] = []" using e by (auto simp: destroy_calls_one)
    then show ?thesis using e False by auto
  next
    case True
    show ?thesis
    proof (cases "componentInstance e")
      case None
      then have "destroy_calls Q cur cm [k] = []" using e by (simp add: destroy_calls_one)
      then show ?thesis using e None by simp
    next
      case (Some i)
      then have "destroy_calls Q cur cm [k] = [i]" using e True by (simp add: destroy_calls_one)
      then show ?thesis using e True Some by auto
    qed
  qed
qed

lemma destroy_calls_Cons:
  "destroy_calls Q cur cm (k # ks) = destroy_calls Q cur cm [k] @ destroy_calls Q cur cm ks"
  by (simp add: destroy_calls_def)

lemma destroy_calls_mem:
  "c \<in> set (destroy_calls Q cur cm ks) \<longleftrightarrow>
     (\<exists>k \<in> set ks. \<exists>e. obj_get cm k = Some e \<and> Q e \<and> must_destroy e cur
                      \<and> componentInstance e = Some c)"
proof (induction ks)
  case Nil
  then show ?case by (simp add: destroy_calls_def)
next
  case (Cons k ks)
  have "c \<in> set (destroy_calls Q cur cm (k # ks)) \<longleftrightarrow>
          c \<in> set (destroy_calls Q cur cm [k]) \<or> c \<in> set (destroy_calls Q cur cm ks)"
    unfolding destroy_calls_Cons[of Q cur cm k ks] by simp
  then show ?case
    unfolding destroy_calls_single case_option_ex Cons.IH by auto
qed

lemma destroy_calls_cong:
  "(\<And>k. k \<in> set ks \<Longrightarrow> obj_get c k = obj_get c' k) \<Longrightarrow>
   destroy_calls Q cur c ks = destroy_calls Q cur c' ks"
  unfolding destroy_calls_def by (intro arg_cong[of _ _ concat] map_cong) simp_all

lemma cond_prune_lastIndex: "cond_prune Q cur k s = Inr s' \<Longrightarrow> lastIndex s' = lastIndex s"
  by (auto simp: cond_prune_def dest: pruneCacheEntry_lastIndex split: option.splits if_splits)

lemma pruneCache_body_cond_prune:
  "pruneCache_body f cur k s =
     (case obj_get (cache s) k of
        None \<Rightarrow> Inr s
      | Some e \<Rightarrow>
          if truthy (name e)
          then cond_prune (\<lambda>e'. \<not> fst (f (the (name e)) (lastIndex s))) cur k
                 (s\<lparr>lastIndex := snd (f (the (name e)) (lastIndex s))\<rparr>)
          else Inr s)"
  by (simp add: pruneCache_body_def cond_prune_def truthy_def Let_def split: option.splits)

lemma rejected_keys_cong:
  "(\<And>k. k \<in> set ks \<Longrightarrow> obj_get c k = obj_get c' k) \<Longrightarrow>
   rejected_keys f c ks h = rejected_keys f c' ks h"
  by (induction ks arbitrary: h) (auto simp: Let_def split: option.splits)

lemma rejected_keys_subset:
  "k \<in> set (fst (rejected_keys f c ks h)) \<Longrightarrow>
   k \<in> set ks \<and> (\<exists>e. obj_get c k = Some e \<and> truthy (name e))"
  by (induction ks arbitrary: h) (auto simp: Let_def split: option.splits if_splits)

lemma rejected_keys_pure:
  assumes "\<And>n h. f n h = (g n, h)"
  shows "rejected_keys f c ks h =
           (filter (\<lambda>k. case obj_get c k of
                            None \<Rightarrow> False
                          | Some e \<Rightarrow> truthy (name e) \<and> \<not> g (the (name e))) ks, h)"
  by (induction ks) (auto simp: assms Let_def split: option.splits)

lemma pruneCache_loop:
  assumes "cache_inv s" and "distinct ks"
  shows "\<exists>s'. for_each (pruneCache_body f cur) ks s = Inr s' \<and> cache_inv s' \<and> only_removes s s'
           \<and> (\<forall>k. obj_get (cache s') k =
                  (if k \<in> set (fst (rejected_keys f (cache s) ks (lastIndex s))) then None
                   else obj_get (cache s) k))
           \<and> keys s' = filter (\<lambda>k. k \<notin> set (fst (rejected_keys f (cache s) ks (lastIndex s))))
                          (keys s)
           \<and> destroyed_log s' = destroyed_log s
                @ destroy_calls (\<lambda>e. True) cur (cache s)
                    (fst (rejected_keys f (cache s) ks (lastIndex s)))
           \<and> lastIndex s' = snd (rejected_keys f (cache s) ks (lastIndex s))"
  using assms
proof (induction ks arbitrary: s)
  case Nil
  then show ?case by (simp add: only_removes_refl destroy_calls_def)
next
  case (Cons k ks)
  from Cons.prems(2) have dks: "distinct ks" and knot: "k \<notin> set ks" by simp_all
  show ?case
  proof (cases "\<exists>e. obj_get (cache s) k = Some e \<and> truthy (name e)")
    case False
    then have body: "pruneCache_body f cur k s = Inr s"
      by (auto simp: pruneCache_body_cond_prune split: option.splits)
    have rk: "rejected_keys f (cache s) (k # ks) (lastIndex s)
                = rejected_keys f (cache s) ks (lastIndex s)"
      using False by (auto split: option.splits)
    from Cons.IH[OF Cons.prems(1) dks] show ?thesis
      unfolding rk by (simp add: body)
  next
    case True
    then obtain e where e: "obj_get (cache s) k = Some e" "truthy (name e)" by blast
    define r where "r = f (the (name e)) (lastIndex s)"
    define s1 where "s1 = s\<lparr>lastIndex := snd r\<rparr>"
    define Q where "Q = (\<lambda>e'::CacheEntry. \<not> fst r)"
    let ?rest = "rejected_keys f (cache s) ks (snd r)"
    have s1: "cache s1 = cache s" "keys s1 = keys s" "destroyed_log s1 = destroyed_log s"
      "lastIndex s1 = snd r"
      by (simp_all add: s1_def)
    have body: "pruneCache_body f cur k s = cond_prune Q cur k s1"
      using e by (simp add: pruneCache_body_cond_prune r_def s1_def Q_def)
    have ci1: "cache_inv s1" using Cons.prems(1) by (simp add: s1_def)
    from cond_prune_step[OF ci1, of Q cur k] obtain s2 where
      s2: "cond_prune Q cur k s1 = Inr s2" "cache_inv s2" "only_removes s1 s2"
        "\<And>k'. obj_get (cache s2) k' = (if k' = k \<and> pruned Q (cache s1) k then None
                                        else obj_get (cache s1) k')"
        "keys s2 = filter (\<lambda>k'. \<not> (k' = k \<and> pruned Q (cache s1) k)) (keys s1)"
        "destroyed_log s2 = destroyed_log s1 @ destroy_calls Q cur (cache s1) [k]"
      by blast
    have li2: "lastIndex s2 = snd r" using cond_prune_lastIndex[OF s2(1)] by (simp add: s1)
    have pr: "pruned Q (cache s1) k \<longleftrightarrow> \<not> fst r" using e by (simp add: pruned_def s1 Q_def)
    have same: "obj_get (cache s2) k' = obj_get (cache s) k'" if "k' \<in> set ks" for k'
      using s2(4)[of k'] that knot by (auto simp: s1)
    have rk2: "rejected_keys f (cache s2) ks (lastIndex s2) = ?rest"
      unfolding li2 by (rule rejected_keys_cong) (rule same)
    have rk: "rejected_keys f (cache s) (k # ks) (lastIndex s)
                = (if fst r then fst ?rest else k # fst ?rest, snd ?rest)"
      using e by (simp add: r_def Let_def)
    from Cons.IH[OF s2(2) dks, unfolded rk2] obtain s' where
      s': "for_each (pruneCache_body f cur) ks s2 = Inr s'" "cache_inv s'" "only_removes s2 s'"
        "\<And>k'. obj_get (cache s') k' = (if k' \<in> set (fst ?rest) then None else obj_get (cache s2) k')"
        "keys s' = filter (\<lambda>k'. k' \<notin> set (fst ?rest)) (keys s2)"
        "destroyed_log s' = destroyed_log s2 @ destroy_calls (\<lambda>e. True) cur (cache s2) (fst ?rest)"
        "lastIndex s' = snd ?rest"
      by blast
    have sub: "k' \<in> set ks" if "k' \<in> set (fst ?rest)" for k'
      using rejected_keys_subset[OF that] by blast
    have knr: "k \<notin> set (fst ?rest)" using sub knot by blast
    have dc2: "destroy_calls (\<lambda>e. True) cur (cache s2) (fst ?rest)
                 = destroy_calls (\<lambda>e. True) cur (cache s) (fst ?rest)"
      by (rule destroy_calls_cong) (use same sub in blast)
    have dc1: "destroy_calls Q cur (cache s) [k]
                 = (if fst r then [] else destroy_calls (\<lambda>e. True) cur (cache s) [k])"
      using e by (simp add: destroy_calls_one Q_def)
    have run: "for_each (pruneCache_body f cur) (k # ks) s = Inr s'"
      using body s2(1) s'(1) by simp
    have "only_removes s s2" using s2(3) by (simp add: s1_def)
    then have orm: "only_removes s s'" using s'(3) by (rule only_removes_trans)
    have get: "obj_get (cache s') k' =
                 (if k' \<in> set (fst (rejected_keys f (cache s) (k # ks) (lastIndex s))) then None
                  else obj_get (cache s) k')" for k'
      unfolding rk using s'(4)[of k'] s2(4)[of k'] pr knr by (auto simp: s1)
    have keys: "keys s' = filter (\<lambda>k'. k' \<notin> set (fst (rejected_keys f (cache s) (k # ks) (lastIndex s))))
                            (keys s)"
      unfolding rk s'(5) s2(5) s1(2) filter_filter
      by (intro filter_cong refl) (use pr knr in auto)
    have log: "destroyed_log s' = destroyed_log s
                @ destroy_calls (\<lambda>e. True) cur (cache s)
                    (fst (rejected_keys f (cache s) (k # ks) (lastIndex s)))"
      unfolding rk s'(6) s2(6) dc2 s1 dc1
      by (simp add: destroy_calls_Cons[of _ _ _ k "fst ?rest"])
    have li: "lastIndex s' = snd (rejected_keys f (cache s) (k # ks) (lastIndex s))"
      unfolding rk using s'(7) by simp
    from run s'(2) orm get keys log li show ?thesis by blast
  qed
qed

lemma pruneCache_result:
  assumes inv: "cache_inv s"
  shows "\<exists>s'. pruneCache f s = Inr s' \<and> cache_inv s' \<and> only_removes s s'
           \<and> (\<forall>k. obj_get (cache s') k =
                  (if k \<in> set (policy_rejects f s) then None else obj_get (cache s) k))
           \<and> keys s' = filter (\<lambda>k. k \<notin> set (policy_rejects f s)) (keys s)
           \<and> destroyed_log s' = destroyed_log s
                @ destroy_calls (\<lambda>e. True) (cur_vnode s) (cache s) (policy_rejects f s)
           \<and> lastIndex s' = snd (rejected_keys f (cache s) (for_in_keys (cache s)) (lastIndex s))"
  unfolding pruneCache_def policy_rejects_def
  by (rule pruneCache_loop[OF inv distinct_for_in_keys[OF cache_inv_props[OF inv]]])

lemma destroyed_result:
  assumes inv: "cache_inv s"
  shows "\<exists>s'. destroyed s = Inr s' \<and> cache_inv s' \<and> only_removes s s'
           \<and> (\<forall>k. obj_get (cache s') k = None) \<and> keys s' = []
           \<and> destroyed_log s' = destroyed_log s
                @ destroy_calls (\<lambda>e. True) None (cache s) (for_in_keys (cache s))
           \<and> destroyed s' = Inr s'"
proof -
  let ?Q = "\<lambda>e::CacheEntry. True"
  from cond_prune_loop[OF inv distinct_for_in_keys[OF cache_inv_props[OF inv]], of ?Q None]
  obtain s' where s': "for_each (cond_prune ?Q None) (for_in_keys (cache s)) s = Inr s'"
    "cache_inv s'" "only_removes s s'"
    "\<And>k. obj_get (cache s') k = (if k \<in> set (for_in_keys (cache s)) \<and> pruned ?Q (cache s) k
                                    then None else obj_get (cache s) k)"
    "keys s' = filter (\<lambda>k. \<not> (k \<in> set (for_in_keys (cache s)) \<and> pruned ?Q (cache s) k)) (keys s)"
    "destroyed_log s' = destroyed_log s
        @ destroy_calls ?Q None (cache s) (for_in_keys (cache s))"
    by blast
  have run: "destroyed s = Inr s'" using s'(1) by (simp add: destroyed_cond_prune[OF inv])
  have get: "obj_get (cache s') k = None" for k
  proof (cases "obj_get (cache s) k")
    case None
    then show ?thesis using s'(4)[of k] by simp
  next
    case (Some e)
    then have "pruned ?Q (cache s) k" by (simp add: pruned_def)
    then show ?thesis using s'(4)[of k] pruned_props[of ?Q "cache s" k] by simp
  qed
  have "k \<notin> set (keys s')" for k using cache_inv_keys[OF s'(2), of k] get[of k] by simp
  then have keys: "keys s' = []" by (cases "keys s'") auto
  have again: "destroyed s' = Inr s'"
    unfolding destroyed_def
  proof (rule for_each_noop)
    fix k assume "k \<in> set (for_in_keys (cache s'))"
    then show "pruneCacheEntry k None s' = Inr s'"
      using pruneCacheEntry_tombstone_noop[OF s'(2) get[of k]] by simp
  qed
  from run s'(2,3,6) get keys again show ?thesis by blast
qed

subsection \<open>Every operation keeps the invariant\<close>

lemma only_removes_staged_ok:
  assumes "staged_ok s" and "only_removes s s'"
  shows "staged_ok s'"
proof -
  have mono: "\<And>k e. obj_get (cache s') k = Some e \<Longrightarrow> obj_get (cache s) k = Some e"
    and same: "vnodeToCache s' = vnodeToCache s" "keyToCache s' = keyToCache s"
    using assms(2) unfolding only_removes_def shrinks_def by blast+
  have none: "obj_get (cache s') k = None" if "obj_get (cache s) k = None" for k
  proof (cases "obj_get (cache s') k")
    case (Some e)
    from mono[OF this] that show ?thesis by simp
  qed simp
  show ?thesis
    using assms(1) none unfolding staged_ok_def same by blast
qed

lemma only_removes_shrinks: "only_removes s s' \<Longrightarrow> shrinks s s'"
  by (simp add: only_removes_def)

lemma created_inv: "store_inv (created inc exc m)"
  by (simp add: store_inv_def cache_inv_def staged_ok_def created_def obj_get_def)

lemma prune_op_inv:
  assumes inv: "store_inv s" and r: "cache_inv s'" "only_removes s s'"
  shows "store_inv s' \<and> destroyed_with_removal x s s' \<and> shrinks s s' \<and> max_prop s' = max_prop s"
proof -
  have "staged_ok s'" using inv only_removes_staged_ok[OF _ r(2)] by (simp add: store_inv_def)
  then show ?thesis
    using r only_removes_shrinks[OF r(2)] shrinks_destroyed_with_removal[of s s' x]
    by (simp add: store_inv_def only_removes_def)
qed

lemma step_inv:
  assumes inv: "store_inv s" and ok: "host_ok s x"
  shows "\<exists>s'. step x s = Inr s' \<and> store_inv s' \<and> destroyed_with_removal x s s'
           \<and> (x \<noteq> CacheVNode \<longrightarrow> shrinks s s')
           \<and> ((\<forall>i e m. x \<noteq> HostProps i e m) \<longrightarrow> max_prop s' = max_prop s)"
proof -
  have ci: "cache_inv s" using inv by (simp add: store_inv_def)
  show ?thesis
  proof (cases x)
    case (Render vnode slot0)
    from step_Render_inv[OF inv ok[unfolded Render]] show ?thesis
      unfolding Render using shrinks_destroyed_with_removal by blast
  next
    case (HostPatch c)
    let ?s' = "s\<lparr>vnodeToCache := map_option (\<lambda>v. v\<lparr>vnode_componentInstance := Some c\<rparr>) (vnodeToCache s)\<rparr>"
    have "store_inv ?s'" using inv by (auto simp: store_inv_def staged_ok_def)
    moreover have "shrinks s ?s'" by (simp add: shrinks_def)
    ultimately show ?thesis unfolding HostPatch
      using shrinks_destroyed_with_removal[of s ?s'] by simp
  next
    case (HostUpdate v)
    have "store_inv (s\<lparr>cur_vnode := v\<rparr>)" using inv by (simp add: store_inv_def)
    moreover have "shrinks s (s\<lparr>cur_vnode := v\<rparr>)" by (simp add: shrinks_def)
    ultimately show ?thesis unfolding HostUpdate
      using shrinks_destroyed_with_removal[of s "s\<lparr>cur_vnode := v\<rparr>"] by simp
  next
    case (HostProps i e m)
    let ?s' = "s\<lparr>include_prop := i, exclude_prop := e, max_prop := m\<rparr>"
    have "store_inv ?s'" using inv by (simp add: store_inv_def)
    moreover have "shrinks s ?s'" by (simp add: shrinks_def)
    ultimately show ?thesis unfolding HostProps
      using shrinks_destroyed_with_removal[of s ?s'] by simp
  next
    case (HostLastIndex a i)
    let ?s' = "s\<lparr>lastIndex := (lastIndex s)(a := i)\<rparr>"
    have "store_inv ?s'" using inv by simp
    moreover have "shrinks s ?s'" by (simp add: shrinks_refl)
    ultimately show ?thesis unfolding HostLastIndex
      using shrinks_destroyed_with_removal[of s ?s'] by simp
  next
    case CacheVNode
    from cacheVNode_inv[OF inv ok[unfolded CacheVNode]] show ?thesis
      unfolding CacheVNode by auto
  next
    case (WatchInclude val)
    from pruneCache_result[OF ci, of "include_filter val"] obtain s'
      where s': "pruneCache (include_filter val) s = Inr s'" "cache_inv s'" "only_removes s s'"
      by blast
    from prune_op_inv[OF inv s'(2,3)] s'(1) show ?thesis
      unfolding WatchInclude by (simp add: watch_include_def)
  next
    case (WatchExclude val)
    from pruneCache_result[OF ci, of "exclude_filter val"] obtain s'
      where s': "pruneCache (exclude_filter val) s = Inr s'" "cache_inv s'" "only_removes s s'"
      by blast
    from prune_op_inv[OF inv s'(2,3)] s'(1) show ?thesis
      unfolding WatchExclude by (simp add: watch_exclude_def)
  next
    case Destroyed
    from destroyed_result[OF ci] obtain s'
      where s': "destroyed s = Inr s'" "cache_inv s'" "only_removes s s'"
      by blast
    from prune_op_inv[OF inv s'(2,3)] s'(1) show ?thesis
      unfolding Destroyed by simp
  qed
qed

lemma run_eq: "run = for_each step"
  by (intro ext) (simp add: run_def)

lemma run_Nil [simp]: "run [] s = Inr s"
  by (simp add: run_eq)

lemma run_Cons: "run (x # xs) s = (case step x s of Inl e \<Rightarrow> Inl e | Inr s1 \<Rightarrow> run xs s1)"
  unfolding run_eq by simp

lemma for_each_append:
  "for_each body (xs @ ys) s =
     (case for_each body xs s of Inl e \<Rightarrow> Inl e | Inr s1 \<Rightarrow> for_each body ys s1)"
  by (induction xs arbitrary: s) (auto split: sum.splits)

lemma run_append:
  "run (xs @ ys) s = (case run xs s of Inl e \<Rightarrow> Inl e | Inr s1 \<Rightarrow> run ys s1)"
  unfolding run_eq by (rule for_each_append)

lemma run_inv:
  assumes "store_inv s" and "host_ok_run ops s"
  shows "\<exists>s'. run ops s = Inr s' \<and> store_inv s'"
  using assms
proof (induction ops arbitrary: s)
  case Nil
  then show ?case by simp
next
  case (Cons x xs)
  from Cons.prems(2) have ok: "host_ok s x" by simp
  from step_inv[OF Cons.prems(1) ok] obtain s1 where s1: "step x s = Inr s1" "store_inv s1"
    by blast
  with Cons.prems(2) have "host_ok_run xs s1" by simp
  from Cons.IH[OF s1(2) this] show ?case using s1(1) by (simp add: run_Cons)
qed

lemma host_ok_run_append:
  assumes "host_ok_run (xs @ ys) s" and "run xs s = Inr s1"
  shows "host_ok_run xs s \<and> host_ok_run ys s1"
  using assms
proof (induction xs arbitrary: s)
  case Nil
  then show ?case by simp
next
  case (Cons x xs)
  from Cons.prems(2) obtain t where t: "step x s = Inr t" "run xs t = Inr s1"
    by (auto simp: run_Cons split: sum.splits)
  from Cons.prems(1) t(1) have "host_ok s x" "host_ok_run (xs @ ys) t" by simp_all
  with Cons.IH[OF _ t(2)] t(1) show ?case by simp
qed

lemma host_ok_run_prefix:
  assumes "store_inv s" and "host_ok_run (xs @ ys) s"
  shows "host_ok_run xs s"
  using assms
proof (induction xs arbitrary: s)
  case Nil
  then show ?case by simp
next
  case (Cons x xs)
  from Cons.prems(2) have ok: "host_ok s x" by simp
  from step_inv[OF Cons.prems(1) ok] obtain t where t: "step x s = Inr t" "store_inv t" by blast
  with Cons.prems(2) have "host_ok_run (xs @ ys) t" by simp
  from Cons.IH[OF t(2) this] ok t(1) show ?case by simp
qed

subsection \<open>C1: the capacity bound\<close>

lemma pruneCacheEntry_keys:
  "pruneCacheEntry key cur s = Inr s' \<Longrightarrow> keys s' = remove1 key (keys s)"
  by (cases "obj_get (cache s) key")
     (auto simp: pruneCacheEntry_eq split: if_splits option.splits)

lemma cacheVNode_length:
  assumes inv: "store_inv s" and run: "cacheVNode s = Inr s'"
    and m: "truthy_max (max_prop s)" "parseInt (max_prop s) = Some (int N)"
    and len: "length (keys s) \<le> N"
  shows "length (keys s') \<le> N"
proof (cases "vnodeToCache s")
  case None
  then show ?thesis using run len by (simp add: cacheVNode_none)
next
  case (Some v)
  with inv obtain k where k: "keyToCache s = Some k"
    by (auto simp: store_inv_def staged_ok_def)
  let ?s1 = "admitted v k s"
  have k1: "keys ?s1 = keys s @ [k]" and m1: "max_prop ?s1 = max_prop s"
    by (simp_all add: admitted_def)
  show ?thesis
  proof (cases "overflows ?s1")
    case False
    then have "\<not> int (length (keys s @ [k])) > int N"
      using m by (simp add: overflows_def length_exceeds_def k1 m1)
    moreover have "keys s' = keys s @ [k]"
      using run[symmetric] False by (simp add: cacheVNode_staged[OF Some k] k1)
    ultimately show ?thesis by simp
  next
    case True
    then obtain s2 where s2: "pruneCacheEntry (hd (keys s @ [k])) (cur_vnode s) ?s1 = Inr s2"
      and s': "s' = s2\<lparr>vnodeToCache := None\<rparr>"
      using run[symmetric] by (auto simp: cacheVNode_staged[OF Some k] split: sum.splits)
    have "keys s' = remove1 (hd (keys s @ [k])) (keys s @ [k])"
      using pruneCacheEntry_keys[OF s2] by (simp add: s' k1)
    moreover have "hd (keys s @ [k]) \<in> set (keys s @ [k])" by (rule hd_in_set) simp
    ultimately show ?thesis using len by (simp add: length_remove1)
  qed
qed

lemma cap_step:
  assumes inv: "store_inv s" and ok: "host_ok s x" and km: "keeps_max m x"
    and m: "max_prop s = m" "truthy_max m" "parseInt m = Some (int N)"
    and len: "length (keys s) \<le> N"
  shows "\<exists>s'. step x s = Inr s' \<and> store_inv s' \<and> max_prop s' = m \<and> length (keys s') \<le> N"
proof -
  from step_inv[OF inv ok] obtain s' where s': "step x s = Inr s'" "store_inv s'"
    "x \<noteq> CacheVNode \<longrightarrow> shrinks s s'"
    "(\<forall>i e m. x \<noteq> HostProps i e m) \<longrightarrow> max_prop s' = max_prop s"
    by blast
  have mx: "max_prop s' = m"
  proof (cases "\<exists>i e m'. x = HostProps i e m'")
    case True
    then show ?thesis using km s'(1) by (auto simp: keeps_max_def)
  next
    case False
    then show ?thesis using s'(4) m(1) by simp
  qed
  have "length (keys s') \<le> N"
  proof (cases "x = CacheVNode")
    case True
    then show ?thesis using cacheVNode_length[OF inv _ _ _ len, of s'] s'(1) m by simp
  next
    case False
    then have "length (keys s') \<le> length (keys s)" using s'(3) by (simp add: shrinks_def)
    then show ?thesis using len by simp
  qed
  with s' mx show ?thesis by blast
qed

lemma cap_run:
  assumes "store_inv s" and "host_ok_run ops s" and "list_all (keeps_max m) ops"
    and "max_prop s = m" and "truthy_max m" and "parseInt m = Some (int N)"
    and "length (keys s) \<le> N"
  shows "\<exists>s'. run ops s = Inr s' \<and> length (keys s') \<le> N"
  using assms
proof (induction ops arbitrary: s)
  case Nil
  then show ?case by simp
next
  case (Cons x xs)
  from Cons.prems(2,3) have ok: "host_ok s x" and km: "keeps_max m x" by simp_all
  from cap_step[OF Cons.prems(1) ok km Cons.prems(4,5,6,7)] obtain s1 where
    s1: "step x s = Inr s1" "store_inv s1" "max_prop s1 = m" "length (keys s1) \<le> N" by blast
  from Cons.prems(2,3) s1(1) have "host_ok_run xs s1" "list_all (keeps_max m) xs" by simp_all
  from Cons.IH[OF s1(2) this s1(3) Cons.prems(5,6) s1(4)] show ?case
    using s1(1) by (simp add: run_Cons)
qed

text \<open>
  C1. A store is created with a capacity: \<open>max\<close> is truthy and \<open>parseInt(max)\<close> is the
  natural number \<open>N\<close>. Whatever the host then does (renders that stage candidates or hit,
  commits by \<open>cacheVNode\<close>, policy changes, teardown), as long as it keeps its contract and
  leaves \<open>max\<close> alone, every prefix of the run ends normally with at most \<open>N\<close> keys in
  \<open>keys\<close>; in particular this holds after every \<open>cacheVNode\<close>.
\<close>

theorem capacity_bound:
  assumes "truthy_max m" and "parseInt m = Some (int N)"
    and "list_all (keeps_max m) ops" and "host_ok_run ops (created inc exc m)"
  shows "\<forall>n. \<exists>s. run (take n ops) (created inc exc m) = Inr s \<and> length (keys s) \<le> N"
proof
  fix n
  let ?s0 = "created inc exc m"
  have "host_ok_run (take n ops @ drop n ops) ?s0" using assms(4) by simp
  then have ok: "host_ok_run (take n ops) ?s0"
    by (rule host_ok_run_prefix[OF created_inv])
  have km: "list_all (keeps_max m) (take n ops)"
    using assms(3) by (auto simp: list_all_iff dest: in_set_takeD)
  show "\<exists>s. run (take n ops) ?s0 = Inr s \<and> length (keys s) \<le> N"
    by (rule cap_run[OF created_inv ok km _ assms(1,2)]) (simp_all add: created_def)
qed

text \<open>The definitions to unfold when a concrete run is evaluated.\<close>

lemmas example_defs =
  node_A_def node_B_def node_C_def admit_ops_def admit_all_def cacheable_def cache_key_def
  entry_of_def patched_def

lemmas eval_defs =
  created_def run_Cons render_def cacheVNode_def pruneCacheEntry_def destroy_call_def
  must_destroy_def obj_get_def remove_arr_def not_cached_def not_included_def excluded_def
  regexp_test_def include_filter_def exclude_filter_def local_getComponentName_def
  truthy_def vnode_cache_key_def not_held_def length_exceeds_def parseInt_string_def
  is_white_space_def is_digit_in_def digit_value_def index_of_def digits_value_def
  keeps_max_def component_vnode_def Let_def pruneCache_def pruneCache_body_def
  watch_include_def watch_exclude_def destroyed_def for_in_keys_def is_array_index_def

lemma scenario_run:
  "(case run scenario_ops (created PUndefined PUndefined (MaxString ''2'')) of
      Inl e \<Rightarrow> False
    | Inr s \<Rightarrow> keys s = [''A'', ''C''] \<and> destroyed_log s = [2]
               \<and> map fst (cache s) = [''A'', ''B'', ''C''] \<and> obj_get (cache s) ''B'' = None)"
  by (simp add: scenario_ops_def scenario_start_def example_defs eval_defs)

lemma scenario_host_ok:
  "host_ok_run scenario_ops (created PUndefined PUndefined (MaxString ''2''))"
  by (simp add: scenario_ops_def scenario_start_def example_defs eval_defs)

theorem capacity_bound_witness:
  "truthy_max (MaxString ''2'') \<and> parseInt (MaxString ''2'') = Some (int 2)
   \<and> list_all (keeps_max (MaxString ''2'')) scenario_ops
   \<and> host_ok_run scenario_ops (created PUndefined PUndefined (MaxString ''2''))
   \<and> (\<forall>n. \<exists>s. run (take n scenario_ops) (created PUndefined PUndefined (MaxString ''2'')) = Inr s
          \<and> length (keys s) \<le> 2)"
proof -
  have h1: "truthy_max (MaxString ''2'')" by simp
  have h2: "parseInt (MaxString ''2'') = Some (int 2)" by (simp add: eval_defs)
  have h3: "list_all (keeps_max (MaxString ''2'')) scenario_ops"
    by (simp add: scenario_ops_def scenario_start_def keeps_max_def)
  have h4: "host_ok_run scenario_ops (created PUndefined PUndefined (MaxString ''2''))"
    by (rule scenario_host_ok)
  from capacity_bound[OF h1 h2 h3 h4] h1 h2 h3 h4 show ?thesis by blast
qed

subsection \<open>C2: at most one \<open>$destroy()\<close> per instance, and only on removal\<close>

text \<open>
  C2. Take any run from \<open>created()\<close> in which the host keeps its contract, and any
  operation \<open>x\<close> after it (a render, that is a lookup or the staging of a candidate, a
  commit, a policy change, a teardown, or an action of the host). The run and \<open>x\<close> end
  normally, and in the state after \<open>x\<close>: no instance occurs twice in the trace of
  \<open>$destroy()\<close> calls; every call made by \<open>x\<close> was made on the instance of an entry that
  \<open>x\<close> itself removed from \<open>cache\<close> and \<open>keys\<close>; and no entry still held has a destroyed
  instance.
\<close>

theorem destroy_at_most_once_on_removal:
  assumes "host_ok_run (ops @ [x]) (created inc exc m)"
  shows "\<exists>s s'. run ops (created inc exc m) = Inr s \<and> step x s = Inr s'
           \<and> distinct (destroyed_log s')
           \<and> destroyed_with_removal x s s'
           \<and> (\<forall>k e c. obj_get (cache s') k = Some e \<longrightarrow> componentInstance e = Some c
                  \<longrightarrow> c \<notin> set (destroyed_log s'))"
proof -
  let ?s0 = "created inc exc m"
  have ok: "host_ok_run ops ?s0" by (rule host_ok_run_prefix[OF created_inv assms])
  from run_inv[OF created_inv ok] obtain s where s: "run ops ?s0 = Inr s" "store_inv s" by blast
  from host_ok_run_append[OF assms s(1)] have okx: "host_ok s x" by simp
  from step_inv[OF s(2) okx] obtain s' where s': "step x s = Inr s'" "store_inv s'"
    "destroyed_with_removal x s s'" by blast
  have ci: "cache_inv s'" using s'(2) by (simp add: store_inv_def)
  have "c \<notin> set (destroyed_log s')"
    if "obj_get (cache s') k = Some e" "componentInstance e = Some c" for k e c
    using cache_inv_inst[OF ci that(1)] that(2) by auto
  with s(1) s'(1,3) cache_inv_log[OF ci] show ?thesis by blast
qed

theorem destroy_at_most_once_on_removal_witness:
  "host_ok_run (scenario_start @ [CacheVNode]) (created PUndefined PUndefined (MaxString ''2''))
   \<and> (\<exists>s s'. run scenario_start (created PUndefined PUndefined (MaxString ''2'')) = Inr s
          \<and> step CacheVNode s = Inr s'
          \<and> distinct (destroyed_log s')
          \<and> destroyed_with_removal CacheVNode s s'
          \<and> (\<forall>k e c. obj_get (cache s') k = Some e \<longrightarrow> componentInstance e = Some c
                 \<longrightarrow> c \<notin> set (destroyed_log s')))"
proof -
  have h: "host_ok_run (scenario_start @ [CacheVNode])
             (created PUndefined PUndefined (MaxString ''2''))"
    by (simp add: scenario_start_def example_defs eval_defs)
  from destroy_at_most_once_on_removal[OF h] h show ?thesis by blast
qed

subsection \<open>C3: eviction of the least recently used key and promotion on a hit\<close>

lemma matches_stateless:
  assumes "stateless p"
  shows "snd (matches p n h) = h" and "fst (matches p n h) = fst (matches p n h')"
  using assms by (cases p; simp add: regexp_test_def)+

lemma not_cached_stateless:
  assumes "stateless inc" and "stateless exc"
  shows "snd (not_cached nm inc exc h) = h"
    and "fst (not_cached nm inc exc h) = fst (not_cached nm inc exc h')"
  using matches_stateless(2)[OF assms(1), of "the nm" h h']
    matches_stateless(2)[OF assms(2), of "the nm" h h']
  by (simp_all add: not_cached_def not_included_def excluded_def
      matches_stateless(1)[OF assms(1)] matches_stateless(1)[OF assms(2)])

lemma render_miss_cacheable:
  assumes "cacheable (include_prop s) (exclude_prop s) v"
    and "obj_get (cache s) (cache_key v) = None"
  shows "render (Some v) slot0 s =
           Inr (Some (v\<lparr>vnode_data := map_option (\<lambda>d. d\<lparr>keepAlive := True\<rparr>) (vnode_data v)\<rparr>),
                s\<lparr>vnodeToCache :=
                     Some (v\<lparr>vnode_data := map_option (\<lambda>d. d\<lparr>keepAlive := True\<rparr>) (vnode_data v)\<rparr>),
                   keyToCache := Some (cache_key v)\<rparr>)"
proof -
  from assms(1) obtain co d where co: "componentOptions v = Some co" and d: "vnode_data v = Some d"
    and st: "stateless (include_prop s)" "stateless (exclude_prop s)"
    and adm0: "\<not> fst (not_cached (local_getComponentName (Some co)) (include_prop s) (exclude_prop s)
                       (\<lambda>a. 0))"
    by (auto simp: cacheable_def)
  have adm: "\<not> fst (not_cached (local_getComponentName (Some co)) (include_prop s) (exclude_prop s)
                      (lastIndex s))"
    using adm0 not_cached_stateless(2)[OF st, of _ "lastIndex s" "\<lambda>a. 0"] by simp
  have h: "snd (not_cached (local_getComponentName (Some co)) (include_prop s) (exclude_prop s)
                  (lastIndex s)) = lastIndex s"
    by (rule not_cached_stateless(1)[OF st])
  have k: "cache_key v = vnode_cache_key v co" using co by (simp add: cache_key_def)
  show ?thesis using render_miss[OF co adm d assms(2)[unfolded k], of slot0] d k h by simp
qed

lemma render_hit_cacheable:
  assumes "cacheable (include_prop s) (exclude_prop s) v"
    and "obj_get (cache s) (cache_key v) = Some e"
  shows "render (Some v) slot0 s =
           Inr (Some (v\<lparr>vnode_componentInstance := componentInstance e,
                        vnode_data := map_option (\<lambda>d. d\<lparr>keepAlive := True\<rparr>) (vnode_data v)\<rparr>),
                s\<lparr>keys := remove1 (cache_key v) (keys s) @ [cache_key v]\<rparr>)"
proof -
  from assms(1) obtain co d where co: "componentOptions v = Some co" and d: "vnode_data v = Some d"
    and st: "stateless (include_prop s)" "stateless (exclude_prop s)"
    and adm0: "\<not> fst (not_cached (local_getComponentName (Some co)) (include_prop s) (exclude_prop s)
                       (\<lambda>a. 0))"
    by (auto simp: cacheable_def)
  have adm: "\<not> fst (not_cached (local_getComponentName (Some co)) (include_prop s) (exclude_prop s)
                      (lastIndex s))"
    using adm0 not_cached_stateless(2)[OF st, of _ "lastIndex s" "\<lambda>a. 0"] by simp
  have h: "snd (not_cached (local_getComponentName (Some co)) (include_prop s) (exclude_prop s)
                  (lastIndex s)) = lastIndex s"
    by (rule not_cached_stateless(1)[OF st])
  have k: "cache_key v = vnode_cache_key v co" using co by (simp add: cache_key_def)
  show ?thesis using render_hit[OF co adm d assms(2)[unfolded k], of slot0] d k h by simp
qed

lemma entry_of_patched:
  "entry_of (v\<lparr>vnode_data := x, vnode_componentInstance := Some c\<rparr>) = entry_of (patched v c)"
  by (simp add: entry_of_def patched_def)

lemma run_single: "run [x] s = step x s"
  by (cases "step x s") (simp_all add: run_Cons)

lemma admit_ops_eq:
  assumes wf: "cacheable (include_prop s) (exclude_prop s) v"
    and free: "obj_get (cache s) (cache_key v) = None"
  shows "run (admit_ops v c) s =
           cacheVNode (s\<lparr>vnodeToCache := Some (patched v c), keyToCache := Some (cache_key v)\<rparr>)"
proof -
  let ?v1 = "v\<lparr>vnode_data := map_option (\<lambda>d. d\<lparr>keepAlive := True\<rparr>) (vnode_data v)\<rparr>"
  have r1: "step (Render (Some v) None) s
              = Inr (s\<lparr>vnodeToCache := Some ?v1, keyToCache := Some (cache_key v)\<rparr>)"
    by (simp add: render_miss_cacheable[OF wf free])
  have r2: "step (HostPatch c) (s\<lparr>vnodeToCache := Some ?v1, keyToCache := Some (cache_key v)\<rparr>)
              = Inr (s\<lparr>vnodeToCache := Some (patched v c), keyToCache := Some (cache_key v)\<rparr>)"
    by (simp add: patched_def)
  have "run (admit_ops v c) s
          = run [CacheVNode] (s\<lparr>vnodeToCache := Some (patched v c), keyToCache := Some (cache_key v)\<rparr>)"
    unfolding admit_ops_def by (simp only: run_Cons[of "Render (Some v) None"] r1
        run_Cons[of "HostPatch c"] r2 sum.case)
  then show ?thesis by (simp only: run_single step.simps)
qed

lemma admit_ops_staged_inv:
  assumes inv: "store_inv s" and free: "obj_get (cache s) (cache_key v) = None"
    and fresh: "c \<notin> set (destroyed_log s)" and nh: "not_held c (cache s)"
  shows "store_inv (s\<lparr>vnodeToCache := Some (patched v c), keyToCache := Some (cache_key v)\<rparr>)
         \<and> host_ok (s\<lparr>vnodeToCache := Some (patched v c), keyToCache := Some (cache_key v)\<rparr>) CacheVNode"
  using assms by (simp add: store_inv_def staged_ok_def patched_def)

lemma admit_ops_fits:
  assumes inv: "store_inv s" and wf: "cacheable (include_prop s) (exclude_prop s) v"
    and free: "obj_get (cache s) (cache_key v) = None"
    and fresh: "c \<notin> set (destroyed_log s)" and nh: "not_held c (cache s)"
    and fits: "\<not> (truthy_max (max_prop s)
                  \<and> length_exceeds (Suc (length (keys s))) (parseInt (max_prop s)))"
  shows "\<exists>s'. run (admit_ops v c) s = Inr s' \<and> store_inv s'
           \<and> keys s' = keys s @ [cache_key v]
           \<and> destroyed_log s' = destroyed_log s
           \<and> (\<forall>k. obj_get (cache s') k = (if k = cache_key v then Some (entry_of (patched v c))
                                            else obj_get (cache s) k))
           \<and> max_prop s' = max_prop s \<and> include_prop s' = include_prop s
           \<and> exclude_prop s' = exclude_prop s \<and> cur_vnode s' = cur_vnode s"
proof -
  let ?s2 = "s\<lparr>vnodeToCache := Some (patched v c), keyToCache := Some (cache_key v)\<rparr>"
  let ?a = "admitted (patched v c) (cache_key v) ?s2"
  from admit_ops_staged_inv[OF inv free fresh nh]
  have inv2: "store_inv ?s2" and ok2: "host_ok ?s2 CacheVNode" by simp_all
  have no: "\<not> overflows ?a" using fits by (simp add: overflows_def admitted_def)
  have run: "run (admit_ops v c) s = Inr (?a\<lparr>vnodeToCache := None\<rparr>)"
    using no by (simp add: admit_ops_eq[OF wf free] cacheVNode_staged[of ?s2 "patched v c" "cache_key v"])
  from cacheVNode_inv[OF inv2 ok2] have "store_inv (?a\<lparr>vnodeToCache := None\<rparr>)"
    using run by (simp add: admit_ops_eq[OF wf free])
  then show ?thesis using run by (simp add: admitted_def)
qed

lemma admit_ops_evicts:
  assumes inv: "store_inv s" and wf: "cacheable (include_prop s) (exclude_prop s) v"
    and free: "obj_get (cache s) (cache_key v) = None"
    and fresh: "c \<notin> set (destroyed_log s)" and nh: "not_held c (cache s)"
    and over: "truthy_max (max_prop s)"
              "length_exceeds (Suc (length (keys s))) (parseInt (max_prop s))"
    and hd: "keys s = k0 # ks"
  shows "\<exists>s' e0 c0. run (admit_ops v c) s = Inr s' \<and> store_inv s'
           \<and> obj_get (cache s) k0 = Some e0 \<and> componentInstance e0 = Some c0
           \<and> keys s' = ks @ [cache_key v]
           \<and> destroyed_log s' = destroyed_log s @ (if must_destroy e0 (cur_vnode s) then [c0] else [])
           \<and> (\<forall>k. obj_get (cache s') k = (if k = k0 then None
                                            else if k = cache_key v then Some (entry_of (patched v c))
                                            else obj_get (cache s) k))
           \<and> max_prop s' = max_prop s \<and> include_prop s' = include_prop s
           \<and> exclude_prop s' = exclude_prop s \<and> cur_vnode s' = cur_vnode s"
proof -
  let ?s2 = "s\<lparr>vnodeToCache := Some (patched v c), keyToCache := Some (cache_key v)\<rparr>"
  let ?a = "admitted (patched v c) (cache_key v) ?s2"
  have ci: "cache_inv s" using inv by (simp add: store_inv_def)
  from admit_ops_staged_inv[OF inv free fresh nh]
  have inv2: "store_inv ?s2" and ok2: "host_ok ?s2 CacheVNode" by simp_all
  have yes: "overflows ?a" using over by (simp add: overflows_def admitted_def)
  have "k0 \<in> set (keys s)" using hd by simp
  then obtain e0 where e0: "obj_get (cache s) k0 = Some e0"
    using cache_inv_keys[OF ci, of k0] by auto
  from cache_inv_inst[OF ci e0] obtain c0 where c0: "componentInstance e0 = Some c0" by blast
  have ne: "k0 \<noteq> cache_key v" using e0 free by auto
  have e0a: "obj_get (cache ?a) k0 = Some e0" using e0 ne by (simp add: admitted_def)
  have dist: "k0 \<notin> set ks" using cache_inv_distinct[OF ci] hd by simp
  define s3 where "s3 = ?a\<lparr>cache := obj_set (cache ?a) k0 None, keys := ks @ [cache_key v],
                         destroyed_log := destroyed_log s @ (if must_destroy e0 (cur_vnode s) then [c0] else [])\<rparr>"
  have prune: "pruneCacheEntry (hd (keys ?s2 @ [cache_key v])) (cur_vnode ?s2) ?a = Inr s3"
    using e0a c0 hd ne dist
    by (simp add: pruneCacheEntry_eq s3_def admitted_def)
  have cv: "cacheVNode ?s2 = Inr (s3\<lparr>vnodeToCache := None\<rparr>)"
    using yes prune by (simp add: cacheVNode_staged[of ?s2 "patched v c" "cache_key v"])
  have run: "run (admit_ops v c) s = Inr (s3\<lparr>vnodeToCache := None\<rparr>)"
    using cv by (simp add: admit_ops_eq[OF wf free])
  from cacheVNode_inv[OF inv2 ok2] have "store_inv (s3\<lparr>vnodeToCache := None\<rparr>)"
    using cv by simp
  then show ?thesis using run e0 c0 ne by (simp add: s3_def admitted_def)
qed

lemma admit_all_Cons: "admit_all ((v, c) # vcs) = admit_ops v c @ admit_all vcs"
  by (simp add: admit_all_def)

lemma admit_all_snoc: "admit_all (vcs @ [(v, c)]) = admit_all vcs @ admit_ops v c"
  by (simp add: admit_all_def)

lemma must_destroy_patched:
  "must_destroy (entry_of (patched v c)) cur = must_destroy (entry_of v) cur"
  by (cases cur) (simp_all add: must_destroy_def entry_of_def patched_def)

lemma admit_all_below:
  assumes "store_inv s" and "max_prop s = m" and "parseInt m = Some (int N)"
    and "length (keys s) + length vcs \<le> N"
    and "include_prop s = inc" and "exclude_prop s = exc"
    and "list_all (\<lambda>(v, c). cacheable inc exc v) vcs"
    and "distinct (map (cache_key \<circ> fst) vcs)"
    and "\<forall>(v, c) \<in> set vcs. obj_get (cache s) (cache_key v) = None"
    and "distinct (map snd vcs)"
    and "\<forall>(v, c) \<in> set vcs. c \<notin> set (destroyed_log s) \<and> not_held c (cache s)"
  shows "\<exists>s'. run (admit_all vcs) s = Inr s' \<and> store_inv s'
           \<and> keys s' = keys s @ map (cache_key \<circ> fst) vcs
           \<and> destroyed_log s' = destroyed_log s
           \<and> max_prop s' = m \<and> include_prop s' = inc \<and> exclude_prop s' = exc
           \<and> cur_vnode s' = cur_vnode s
           \<and> (\<forall>(v, c) \<in> set vcs. obj_get (cache s') (cache_key v) = Some (entry_of (patched v c)))
           \<and> (\<forall>k. k \<notin> set (map (cache_key \<circ> fst) vcs) \<longrightarrow> obj_get (cache s') k = obj_get (cache s) k)"
  using assms
proof (induction vcs arbitrary: s)
  case Nil
  then show ?case by (simp add: admit_all_def)
next
  case (Cons vc vcs)
  obtain v c where vc: "vc = (v, c)" by (cases vc)
  have ci: "cache_inv s" using Cons.prems(1) by (simp add: store_inv_def)
  have wf: "cacheable (include_prop s) (exclude_prop s) v"
    using Cons.prems(5,6,7) vc by simp
  have free: "obj_get (cache s) (cache_key v) = None" using Cons.prems(9) vc by simp
  have fresh: "c \<notin> set (destroyed_log s)" and nh: "not_held c (cache s)"
    using Cons.prems(11) vc by simp_all
  have fits: "\<not> (truthy_max (max_prop s)
                  \<and> length_exceeds (Suc (length (keys s))) (parseInt (max_prop s)))"
    using Cons.prems(2,3,4) by (simp add: length_exceeds_def)
  from admit_ops_fits[OF Cons.prems(1) wf free fresh nh fits] obtain s1 where
    s1: "run (admit_ops v c) s = Inr s1" "store_inv s1" "keys s1 = keys s @ [cache_key v]"
      "destroyed_log s1 = destroyed_log s"
      "\<And>k. obj_get (cache s1) k = (if k = cache_key v then Some (entry_of (patched v c))
                                            else obj_get (cache s) k)"
      "max_prop s1 = max_prop s" "include_prop s1 = include_prop s"
      "exclude_prop s1 = exclude_prop s" "cur_vnode s1 = cur_vnode s"
    by blast
  have ci1: "cache_inv s1" using s1(2) by (simp add: store_inv_def)
  have knot: "cache_key v \<notin> set (map (cache_key \<circ> fst) vcs)"
    using Cons.prems(8) vc by simp
  have cnot: "c \<notin> set (map snd vcs)" using Cons.prems(10) vc by simp
  have free1: "\<forall>(v', c') \<in> set vcs. obj_get (cache s1) (cache_key v') = None"
  proof (clarify)
    fix v' c' assume m: "(v', c') \<in> set vcs"
    then have "cache_key v' \<noteq> cache_key v" using knot by force
    moreover have "obj_get (cache s) (cache_key v') = None" using Cons.prems(9) m by auto
    ultimately show "obj_get (cache s1) (cache_key v') = None" by (simp add: s1(5))
  qed
  have fresh1: "\<forall>(v', c') \<in> set vcs. c' \<notin> set (destroyed_log s1) \<and> not_held c' (cache s1)"
  proof (clarify)
    fix v' c' assume m: "(v', c') \<in> set vcs"
    then have ne: "c' \<noteq> c" using cnot by force
    have old: "c' \<notin> set (destroyed_log s)" "not_held c' (cache s)"
      using Cons.prems(11) m by auto
    have "componentInstance e \<noteq> Some c'" if "obj_get (cache s1) k = Some e" for k e
    proof (cases "k = cache_key v")
      case True
      then have "e = entry_of (patched v c)" using that by (simp add: s1(5))
      then show ?thesis using ne by (simp add: entry_of_def patched_def)
    next
      case False
      then have "obj_get (cache s) k = Some e" using that by (simp add: s1(5))
      then show ?thesis using old(2) not_held_iff[OF cache_inv_props[OF ci]] by blast
    qed
    then have "not_held c' (cache s1)" using not_held_iff[OF cache_inv_props[OF ci1]] by blast
    then show "c' \<notin> set (destroyed_log s1) \<and> not_held c' (cache s1)"
      using old(1) by (simp add: s1(4))
  qed
  have len1: "length (keys s1) + length vcs \<le> N" using Cons.prems(4) by (simp add: s1(3))
  have wf1: "list_all (\<lambda>(v, c). cacheable inc exc v) vcs" using Cons.prems(7) by simp
  have dk1: "distinct (map (cache_key \<circ> fst) vcs)" using Cons.prems(8) by (simp add: comp_def)
  have di1: "distinct (map snd vcs)" using Cons.prems(10) by simp
  have m1: "max_prop s1 = m" "include_prop s1 = inc" "exclude_prop s1 = exc"
    using s1(6,7,8) Cons.prems(2,5,6) by simp_all
  from Cons.IH[OF s1(2) m1(1) Cons.prems(3) len1 m1(2,3) wf1 dk1 free1 di1 fresh1]
  obtain s' where s': "run (admit_all vcs) s1 = Inr s'" "store_inv s'"
      "keys s' = keys s1 @ map (cache_key \<circ> fst) vcs"
      "destroyed_log s' = destroyed_log s1"
      "max_prop s' = m" "include_prop s' = inc" "exclude_prop s' = exc"
      "cur_vnode s' = cur_vnode s1"
      "\<forall>(v, c) \<in> set vcs. obj_get (cache s') (cache_key v) = Some (entry_of (patched v c))"
      "\<And>k. k \<notin> set (map (cache_key \<circ> fst) vcs) \<Longrightarrow> obj_get (cache s') k = obj_get (cache s1) k"
    by blast
  have run: "run (admit_all (vc # vcs)) s = Inr s'"
    by (simp add: vc admit_all_Cons run_append s1(1) s'(1))
  have here: "obj_get (cache s') (cache_key v) = Some (entry_of (patched v c))"
    using s'(10)[OF knot] by (simp add: s1(5))
  have others: "obj_get (cache s') k = obj_get (cache s) k"
    if "k \<notin> set (map (cache_key \<circ> fst) (vc # vcs))" for k
  proof -
    from that have "k \<noteq> cache_key v" "k \<notin> set (map (cache_key \<circ> fst) vcs)" by (simp_all add: vc)
    then show ?thesis using s'(10)[of k] by (simp add: s1(5))
  qed
  show ?case
    using run s'(2,5,6,7,9) here others
    by (simp add: s'(3,4,8) s1(3,4,9) vc)
qed

lemma created_get: "obj_get (cache (created inc exc m)) k = None"
  by (simp add: created_def obj_get_def)

lemma lru_evicts_first:
  assumes cap: "truthy_max m" "parseInt m = Some (int N)" and len: "length rest = N" "0 < N"
    and wf: "list_all (\<lambda>(v, c). cacheable inc exc v \<and> must_destroy (entry_of v) cur) ((v0, c0) # rest)"
    and dk: "distinct (map (cache_key \<circ> fst) ((v0, c0) # rest))"
    and di: "distinct (map snd ((v0, c0) # rest))"
  shows "\<exists>s. run (HostUpdate cur # admit_all ((v0, c0) # rest)) (created inc exc m) = Inr s
           \<and> keys s = map (cache_key \<circ> fst) rest
           \<and> destroyed_log s = [c0]
           \<and> obj_get (cache s) (cache_key v0) = None
           \<and> list_all (\<lambda>(v, c). obj_get (cache s) (cache_key v) = Some (entry_of (patched v c))) rest"
proof -
  let ?s0 = "(created inc exc m)\<lparr>cur_vnode := cur\<rparr>"
  have inv0: "store_inv ?s0" using created_inv[of inc exc m] by (simp add: store_inv_def)
  have get0: "obj_get (cache ?s0) k = None" for k using created_get[of inc exc m k] by simp
  from len have "rest \<noteq> []" by auto
  then obtain xs vl cl where rest: "rest = xs @ [(vl, cl)]"
    by (metis surj_pair rev_exhaust)
  let ?first = "(v0, c0) # xs"
  have lenf: "length (keys ?s0) + length ?first \<le> N" using len rest by (simp add: created_def)
  have wff: "list_all (\<lambda>(v, c). cacheable inc exc v) ?first"
    using wf rest by (auto simp: list_all_iff)
  have dkf: "distinct (map (cache_key \<circ> fst) ?first)" using dk rest by simp
  have dif: "distinct (map snd ?first)" using di rest by simp
  have free0: "\<forall>(v, c) \<in> set ?first. obj_get (cache ?s0) (cache_key v) = None"
    using get0 by auto
  have fresh0: "\<forall>(v, c) \<in> set ?first. c \<notin> set (destroyed_log ?s0) \<and> not_held c (cache ?s0)"
    by (simp add: created_def not_held_def)
  have m0: "max_prop ?s0 = m" "include_prop ?s0 = inc" "exclude_prop ?s0 = exc"
    by (simp_all add: created_def)
  from admit_all_below[OF inv0 m0(1) cap(2) lenf m0(2,3) wff dkf free0 dif fresh0]
  obtain s1 where s1: "run (admit_all ?first) ?s0 = Inr s1" "store_inv s1"
      "keys s1 = map (cache_key \<circ> fst) ?first" "destroyed_log s1 = []"
      "max_prop s1 = m" "include_prop s1 = inc" "exclude_prop s1 = exc" "cur_vnode s1 = cur"
      "\<forall>(v, c) \<in> set ?first. obj_get (cache s1) (cache_key v) = Some (entry_of (patched v c))"
      "\<And>k. k \<notin> set (map (cache_key \<circ> fst) ?first) \<Longrightarrow> obj_get (cache s1) k = None"
    using get0 by (auto simp: created_def)
  have ci1: "cache_inv s1" using s1(2) by (simp add: store_inv_def)
  have wfl: "cacheable (include_prop s1) (exclude_prop s1) vl"
    using wf rest s1(6,7) by simp
  have klnot: "cache_key vl \<notin> set (map (cache_key \<circ> fst) ?first)" using dk rest by auto
  have freel: "obj_get (cache s1) (cache_key vl) = None" by (rule s1(10)[OF klnot])
  have clnot: "cl \<notin> set (map snd ?first)" using di rest by auto
  have held1: "\<exists>v c. (v, c) \<in> set ?first \<and> k = cache_key v \<and> e = entry_of (patched v c)"
    if "obj_get (cache s1) k = Some e" for k e
  proof -
    have "k \<in> set (map (cache_key \<circ> fst) ?first)" using s1(10)[of k] that by auto
    then obtain v c where vc: "(v, c) \<in> set ?first" "k = cache_key v" by force
    with s1(9) that have "e = entry_of (patched v c)" by auto
    with vc show ?thesis by blast
  qed
  have "componentInstance e \<noteq> Some cl" if "obj_get (cache s1) k = Some e" for k e
  proof -
    from held1[OF that] obtain v c where vc: "(v, c) \<in> set ?first" "e = entry_of (patched v c)"
      by blast
    then have "c \<noteq> cl" using clnot by force
    then show ?thesis using vc(2) by (simp add: entry_of_def patched_def)
  qed
  then have nhl: "not_held cl (cache s1)" using not_held_iff[OF cache_inv_props[OF ci1]] by blast
  have freshl: "cl \<notin> set (destroyed_log s1)" by (simp add: s1(4))
  have over: "truthy_max (max_prop s1)"
    "length_exceeds (Suc (length (keys s1))) (parseInt (max_prop s1))"
    using cap len rest by (simp_all add: s1(3,5) length_exceeds_def)
  have hd: "keys s1 = cache_key v0 # map (cache_key \<circ> fst) xs" by (simp add: s1(3))
  from admit_ops_evicts[OF s1(2) wfl freel freshl nhl over hd]
  obtain s' e0 c0' where s': "run (admit_ops vl cl) s1 = Inr s'"
      "obj_get (cache s1) (cache_key v0) = Some e0" "componentInstance e0 = Some c0'"
      "keys s' = map (cache_key \<circ> fst) xs @ [cache_key vl]"
      "destroyed_log s' = destroyed_log s1 @ (if must_destroy e0 (cur_vnode s1) then [c0'] else [])"
      "\<And>k. obj_get (cache s') k = (if k = cache_key v0 then None
                                     else if k = cache_key vl then Some (entry_of (patched vl cl))
                                     else obj_get (cache s1) k)"
    by blast
  have e0: "e0 = entry_of (patched v0 c0)" using s1(9) s'(2) by simp
  then have c0': "c0' = c0" using s'(3) by (simp add: entry_of_def patched_def)
  have md: "must_destroy e0 (cur_vnode s1)"
    using wf by (simp add: e0 must_destroy_patched s1(8))
  have run: "run (HostUpdate cur # admit_all ((v0, c0) # rest)) (created inc exc m) = Inr s'"
  proof -
    have "admit_all ((v0, c0) # rest) = admit_all ?first @ admit_ops vl cl"
      using admit_all_snoc[of ?first vl cl] by (simp add: rest)
    then show ?thesis by (simp add: run_Cons run_append s1(1) s'(1))
  qed
  have k0ne: "cache_key v \<noteq> cache_key v0" if "(v, c) \<in> set rest" for v c
    using dk that by force
  have ents: "list_all (\<lambda>(v, c). obj_get (cache s') (cache_key v) = Some (entry_of (patched v c))) rest"
    unfolding list_all_iff
  proof (clarify)
    fix v c assume m: "(v, c) \<in> set rest"
    show "obj_get (cache s') (cache_key v) = Some (entry_of (patched v c))"
    proof (cases "(v, c) = (vl, cl)")
      case True
      then show ?thesis using k0ne[OF m] by (simp add: s'(6))
    next
      case False
      with m rest have mx: "(v, c) \<in> set xs" by auto
      then have "cache_key v \<noteq> cache_key vl" using dk rest by force
      moreover have "obj_get (cache s1) (cache_key v) = Some (entry_of (patched v c))"
        using s1(9) mx by auto
      ultimately show ?thesis using k0ne[OF m] by (simp add: s'(6))
    qed
  qed
  show ?thesis
    using run ents md by (simp add: s'(4,5,6) s1(4) c0' rest)
qed

lemma reach_inv:
  assumes "host_ok_run ops (created inc exc m)" and "run ops (created inc exc m) = Inr s"
  shows "store_inv s"
  using run_inv[OF created_inv assms(1)] assms(2) by auto

lemma remove1_Nil_single: "k \<in> set xs \<Longrightarrow> remove1 k xs = [] \<Longrightarrow> xs = [k]"
  by (cases xs) (auto split: if_splits)

lemma promotion_protects:
  assumes reach: "host_ok_run ops (created inc exc m)" "run ops (created inc exc m) = Inr s"
    and wf: "cacheable (include_prop s) (exclude_prop s) v"
    and hit: "obj_get (cache s) (cache_key v) = Some e"
  shows "\<exists>r s1. render (Some v) slot0 s = Inr (Some r, s1)
           \<and> vnode_componentInstance r = componentInstance e
           \<and> keys s1 = remove1 (cache_key v) (keys s) @ [cache_key v]
           \<and> last (keys s1) = cache_key v
           \<and> (\<forall>v' c'. cacheable (include_prop s1) (exclude_prop s1) v'
                   \<and> obj_get (cache s1) (cache_key v') = None
                   \<and> c' \<notin> set (destroyed_log s1) \<and> not_held c' (cache s1)
                   \<and> truthy_max (max_prop s1)
                   \<and> length_exceeds (Suc (length (keys s1))) (parseInt (max_prop s1))
                 \<longrightarrow> (\<exists>s2. run (admit_ops v' c') s1 = Inr s2
                        \<and> keys s2 = tl (keys s1) @ [cache_key v']
                        \<and> obj_get (cache s2) (hd (keys s1)) = None
                        \<and> (keys s \<noteq> [cache_key v] \<longrightarrow>
                               hd (keys s1) \<noteq> cache_key v
                               \<and> obj_get (cache s2) (cache_key v) = Some e
                               \<and> cache_key v \<in> set (keys s2))))"
proof -
  let ?k = "cache_key v"
  let ?s1 = "s\<lparr>keys := remove1 ?k (keys s) @ [?k]\<rparr>"
  let ?r = "v\<lparr>vnode_componentInstance := componentInstance e,
              vnode_data := map_option (\<lambda>d. d\<lparr>keepAlive := True\<rparr>) (vnode_data v)\<rparr>"
  have inv: "store_inv s" by (rule reach_inv[OF reach])
  have ci: "cache_inv s" using inv by (simp add: store_inv_def)
  have r: "render (Some v) slot0 s = Inr (Some ?r, ?s1)"
    by (rule render_hit_cacheable[OF wf hit])
  have inv1: "store_inv ?s1"
    using cache_inv_promote[OF ci hit] inv by (simp add: store_inv_def)
  have mem: "?k \<in> set (keys s)" using cache_inv_keys[OF ci, of ?k] hit by simp
  have dist: "distinct (keys s)" by (rule cache_inv_distinct[OF ci])
  have later: "\<exists>s2. run (admit_ops v' c') ?s1 = Inr s2
                        \<and> keys s2 = tl (keys ?s1) @ [cache_key v']
                        \<and> obj_get (cache s2) (hd (keys ?s1)) = None
                        \<and> (keys s \<noteq> [?k] \<longrightarrow>
                               hd (keys ?s1) \<noteq> ?k
                               \<and> obj_get (cache s2) ?k = Some e
                               \<and> ?k \<in> set (keys s2))"
    if a: "cacheable (include_prop ?s1) (exclude_prop ?s1) v'"
      "obj_get (cache ?s1) (cache_key v') = None"
      "c' \<notin> set (destroyed_log ?s1)" "not_held c' (cache ?s1)"
      "truthy_max (max_prop ?s1)"
      "length_exceeds (Suc (length (keys ?s1))) (parseInt (max_prop ?s1))"
    for v' c'
  proof -
    obtain k0 ks where hd: "keys ?s1 = k0 # ks"
      by (cases "keys ?s1") simp_all
    from admit_ops_evicts[OF inv1 a(1,2,3,4,5,6) hd]
    obtain s2 where s2: "run (admit_ops v' c') ?s1 = Inr s2"
      "keys s2 = ks @ [cache_key v']"
      "\<And>k. obj_get (cache s2) k = (if k = k0 then None
                                     else if k = cache_key v' then Some (entry_of (patched v' c'))
                                     else obj_get (cache ?s1) k)"
      by blast
    have kne: "?k \<noteq> cache_key v'" using a(2) hit by auto
    have prot: "hd (keys ?s1) \<noteq> ?k \<and> obj_get (cache s2) ?k = Some e \<and> ?k \<in> set (keys s2)"
      if ne: "keys s \<noteq> [?k]"
    proof -
      have nonempty: "remove1 ?k (keys s) \<noteq> []"
        using remove1_Nil_single[OF mem] ne by blast
      then have "hd (keys ?s1) \<in> set (remove1 ?k (keys s))" by simp
      then have h: "hd (keys ?s1) \<noteq> ?k" using dist by auto
      then have k0: "k0 \<noteq> ?k" using hd by simp
      have "?k \<in> set (keys ?s1)" by simp
      then have "?k \<in> set ks" using hd k0 by auto
      then show ?thesis using h k0 kne hit by (simp add: s2(2,3))
    qed
    show ?thesis using s2(1) prot hd by (simp add: s2(2,3))
  qed
  have last: "last (keys ?s1) = ?k" by simp
  show ?thesis
    apply (rule exI[of _ ?r], rule exI[of _ ?s1])
    using r last later by simp
qed

text \<open>
  C3, first as the claim states it. With capacity one, \<open>A\<close> is cached and looked up (a hit
  that leaves \<open>A\<close> at the tail of \<open>keys\<close>, which is also its head); the next admission, of
  \<open>B\<close>, overflows and evicts and destroys \<open>A\<close>, the key just looked up.
\<close>

theorem lookup_then_overflow_counterexample:
  "run (admit_ops node_A 1 @ [Render (Some node_A) None]) (created PUndefined PUndefined (MaxNumber 1))
     = Inr \<lparr>cache = [(''A'', Some \<lparr>name = Some ''Alpha'', tag = Some ''tag-a'',
                                    componentInstance = Some 1\<rparr>)],
            keys = [''A''], vnodeToCache = None, keyToCache = Some ''A'', cur_vnode = None,
            include_prop = PUndefined, exclude_prop = PUndefined, max_prop = MaxNumber 1,
            destroyed_log = [], lastIndex = (\<lambda>a. 0)\<rparr>
   \<and> run (admit_ops node_A 1 @ [Render (Some node_A) None] @ admit_ops node_B 2)
         (created PUndefined PUndefined (MaxNumber 1))
     = Inr \<lparr>cache = [(''A'', None),
                     (''B'', Some \<lparr>name = Some ''Beta'', tag = Some ''tag-b'',
                                    componentInstance = Some 2\<rparr>)],
            keys = [''B''], vnodeToCache = None, keyToCache = Some ''B'', cur_vnode = None,
            include_prop = PUndefined, exclude_prop = PUndefined, max_prop = MaxNumber 1,
            destroyed_log = [1], lastIndex = (\<lambda>a. 0)\<rparr>"
  by (simp add: example_defs eval_defs)

text \<open>
  C3, amended. (1) A store of capacity \<open>N > 0\<close> admits \<open>N + 1\<close> cacheable nodes with
  distinct keys and distinct instances, whose tags all differ from the tag of the current
  node: the run ends normally, \<open>keys\<close> holds the last \<open>N\<close> keys in order, each with its
  entry, the first key holds no entry, and the one \<open>$destroy()\<close> call was made on the
  first instance. (2) In any state the store can reach, a lookup that hits hands out the
  cached instance and leaves its key at the tail of \<open>keys\<close>; an admission that then
  overflows evicts the head of \<open>keys\<close>, and provided the key looked up was not the only
  key in \<open>keys\<close>, that head is another key and the key looked up stays cached.
\<close>

theorem lru_eviction_and_promotion:
  "(truthy_max m \<and> parseInt m = Some (int N) \<and> length rest = N \<and> 0 < N
      \<and> list_all (\<lambda>(v, c). cacheable inc exc v \<and> must_destroy (entry_of v) cur) ((v0, c0) # rest)
      \<and> distinct (map (cache_key \<circ> fst) ((v0, c0) # rest))
      \<and> distinct (map snd ((v0, c0) # rest))
    \<longrightarrow> (\<exists>s. run (HostUpdate cur # admit_all ((v0, c0) # rest)) (created inc exc m) = Inr s
           \<and> keys s = map (cache_key \<circ> fst) rest
           \<and> destroyed_log s = [c0]
           \<and> obj_get (cache s) (cache_key v0) = None
           \<and> list_all (\<lambda>(v, c). obj_get (cache s) (cache_key v) = Some (entry_of (patched v c))) rest))
   \<and> (host_ok_run ops (created inc exc m) \<and> run ops (created inc exc m) = Inr s
      \<and> cacheable (include_prop s) (exclude_prop s) v
      \<and> obj_get (cache s) (cache_key v) = Some e
    \<longrightarrow> (\<exists>r s1. render (Some v) slot0 s = Inr (Some r, s1)
           \<and> vnode_componentInstance r = componentInstance e
           \<and> keys s1 = remove1 (cache_key v) (keys s) @ [cache_key v]
           \<and> last (keys s1) = cache_key v
           \<and> (\<forall>v' c'. cacheable (include_prop s1) (exclude_prop s1) v'
                   \<and> obj_get (cache s1) (cache_key v') = None
                   \<and> c' \<notin> set (destroyed_log s1) \<and> not_held c' (cache s1)
                   \<and> truthy_max (max_prop s1)
                   \<and> length_exceeds (Suc (length (keys s1))) (parseInt (max_prop s1))
                 \<longrightarrow> (\<exists>s2. run (admit_ops v' c') s1 = Inr s2
                        \<and> keys s2 = tl (keys s1) @ [cache_key v']
                        \<and> obj_get (cache s2) (hd (keys s1)) = None
                        \<and> (keys s \<noteq> [cache_key v] \<longrightarrow>
                               hd (keys s1) \<noteq> cache_key v
                               \<and> obj_get (cache s2) (cache_key v) = Some e
                               \<and> cache_key v \<in> set (keys s2))))))"
proof (intro conjI impI)
  assume "truthy_max m \<and> parseInt m = Some (int N) \<and> length rest = N \<and> 0 < N
      \<and> list_all (\<lambda>(v, c). cacheable inc exc v \<and> must_destroy (entry_of v) cur) ((v0, c0) # rest)
      \<and> distinct (map (cache_key \<circ> fst) ((v0, c0) # rest))
      \<and> distinct (map snd ((v0, c0) # rest))"
  then show "\<exists>s. run (HostUpdate cur # admit_all ((v0, c0) # rest)) (created inc exc m) = Inr s
           \<and> keys s = map (cache_key \<circ> fst) rest
           \<and> destroyed_log s = [c0]
           \<and> obj_get (cache s) (cache_key v0) = None
           \<and> list_all (\<lambda>(v, c). obj_get (cache s) (cache_key v) = Some (entry_of (patched v c))) rest"
    using lru_evicts_first[of m N rest inc exc cur v0 c0] by blast
next
  assume "host_ok_run ops (created inc exc m) \<and> run ops (created inc exc m) = Inr s
      \<and> cacheable (include_prop s) (exclude_prop s) v
      \<and> obj_get (cache s) (cache_key v) = Some e"
  then show "\<exists>r s1. render (Some v) slot0 s = Inr (Some r, s1)
           \<and> vnode_componentInstance r = componentInstance e
           \<and> keys s1 = remove1 (cache_key v) (keys s) @ [cache_key v]
           \<and> last (keys s1) = cache_key v
           \<and> (\<forall>v' c'. cacheable (include_prop s1) (exclude_prop s1) v'
                   \<and> obj_get (cache s1) (cache_key v') = None
                   \<and> c' \<notin> set (destroyed_log s1) \<and> not_held c' (cache s1)
                   \<and> truthy_max (max_prop s1)
                   \<and> length_exceeds (Suc (length (keys s1))) (parseInt (max_prop s1))
                 \<longrightarrow> (\<exists>s2. run (admit_ops v' c') s1 = Inr s2
                        \<and> keys s2 = tl (keys s1) @ [cache_key v']
                        \<and> obj_get (cache s2) (hd (keys s1)) = None
                        \<and> (keys s \<noteq> [cache_key v] \<longrightarrow>
                               hd (keys s1) \<noteq> cache_key v
                               \<and> obj_get (cache s2) (cache_key v) = Some e
                               \<and> cache_key v \<in> set (keys s2))))"
    using promotion_protects[of ops inc exc m s v e slot0] by blast
qed

lemma store_AB_reached:
  "host_ok_run (admit_ops node_A 1 @ admit_ops node_B 2) (created PUndefined PUndefined (MaxNumber 2))
   \<and> run (admit_ops node_A 1 @ admit_ops node_B 2) (created PUndefined PUndefined (MaxNumber 2))
       = Inr store_AB"
  by (simp add: store_AB_def example_defs eval_defs)

theorem lru_eviction_and_promotion_witness:
  "(truthy_max (MaxNumber 2) \<and> parseInt (MaxNumber 2) = Some (int 2)
      \<and> length [(node_B, 2), (node_C, 3::nat)] = 2 \<and> 0 < (2::nat)
      \<and> list_all (\<lambda>(v, c). cacheable PUndefined PUndefined v \<and> must_destroy (entry_of v) None)
           [(node_A, 1::nat), (node_B, 2), (node_C, 3)]
      \<and> distinct (map (cache_key \<circ> fst) [(node_A, 1::nat), (node_B, 2), (node_C, 3)])
      \<and> distinct (map snd [(node_A, 1::nat), (node_B, 2), (node_C, 3)]))
   \<and> (host_ok_run (admit_ops node_A 1 @ admit_ops node_B 2) (created PUndefined PUndefined (MaxNumber 2))
      \<and> run (admit_ops node_A 1 @ admit_ops node_B 2) (created PUndefined PUndefined (MaxNumber 2))
           = Inr store_AB
      \<and> cacheable (include_prop store_AB) (exclude_prop store_AB) node_A
      \<and> obj_get (cache store_AB) (cache_key node_A)
           = Some \<lparr>name = Some ''Alpha'', tag = Some ''tag-a'', componentInstance = Some 1\<rparr>)
   \<and> (\<exists>s. run (HostUpdate None # admit_all [(node_A, 1), (node_B, 2), (node_C, 3)])
             (created PUndefined PUndefined (MaxNumber 2)) = Inr s
          \<and> keys s = [''B'', ''C''] \<and> destroyed_log s = [1] \<and> obj_get (cache s) ''A'' = None)
   \<and> (\<exists>r s1. render (Some node_A) None store_AB = Inr (Some r, s1)
          \<and> vnode_componentInstance r = Some 1 \<and> keys s1 = [''B'', ''A''])"
proof -
  have h1: "truthy_max (MaxNumber 2) \<and> parseInt (MaxNumber 2) = Some (int 2)
      \<and> length [(node_B, 2), (node_C, 3::nat)] = 2 \<and> 0 < (2::nat)
      \<and> list_all (\<lambda>(v, c). cacheable PUndefined PUndefined v \<and> must_destroy (entry_of v) None)
           ((node_A, 1::nat) # [(node_B, 2), (node_C, 3)])
      \<and> distinct (map (cache_key \<circ> fst) ((node_A, 1::nat) # [(node_B, 2), (node_C, 3)]))
      \<and> distinct (map snd ((node_A, 1::nat) # [(node_B, 2), (node_C, 3)]))"
    by (simp add: example_defs eval_defs)
  have h2: "host_ok_run (admit_ops node_A 1 @ admit_ops node_B 2) (created PUndefined PUndefined (MaxNumber 2))
      \<and> run (admit_ops node_A 1 @ admit_ops node_B 2) (created PUndefined PUndefined (MaxNumber 2))
           = Inr store_AB
      \<and> cacheable (include_prop store_AB) (exclude_prop store_AB) node_A
      \<and> obj_get (cache store_AB) (cache_key node_A)
           = Some \<lparr>name = Some ''Alpha'', tag = Some ''tag-a'', componentInstance = Some 1\<rparr>"
    using store_AB_reached by (simp add: store_AB_def example_defs eval_defs)
  note t = lru_eviction_and_promotion[where m = "MaxNumber 2" and N = 2
      and rest = "[(node_B, 2), (node_C, 3)]" and inc = PUndefined and exc = PUndefined
      and cur = None and ?v0.0 = node_A and ?c0.0 = 1
      and ops = "admit_ops node_A 1 @ admit_ops node_B 2" and s = store_AB and v = node_A
      and e = "\<lparr>name = Some ''Alpha'', tag = Some ''tag-a'', componentInstance = Some 1\<rparr>"
      and ?slot0.0 = None]
  note t1 = t[THEN conjunct1, THEN mp, OF h1]
  note t2 = t[THEN conjunct2, THEN mp, OF h2]
  have k: "cache_key node_A = ''A''" "map (cache_key \<circ> fst) [(node_B, 2::nat), (node_C, 3)] = [''B'', ''C'']"
    "keys store_AB = [''A'', ''B'']"
    by (simp_all add: store_AB_def example_defs eval_defs)
  from t1 obtain s where s: "run (HostUpdate None # admit_all ((node_A, 1) # [(node_B, 2), (node_C, 3)]))
             (created PUndefined PUndefined (MaxNumber 2)) = Inr s"
      "keys s = map (cache_key \<circ> fst) [(node_B, 2::nat), (node_C, 3)]"
      "destroyed_log s = [1]" "obj_get (cache s) (cache_key node_A) = None"
    by (elim exE conjE) blast
  have c1': "\<exists>s. run (HostUpdate None # admit_all [(node_A, 1), (node_B, 2), (node_C, 3)])
             (created PUndefined PUndefined (MaxNumber 2)) = Inr s
          \<and> keys s = [''B'', ''C''] \<and> destroyed_log s = [1] \<and> obj_get (cache s) ''A'' = None"
    using s unfolding k by (intro exI[of _ s] conjI)
  from t2 obtain r s1 where r: "render (Some node_A) None store_AB = Inr (Some r, s1)"
      "vnode_componentInstance r
         = componentInstance \<lparr>name = Some ''Alpha'', tag = Some ''tag-a'', componentInstance = Some 1\<rparr>"
      "keys s1 = remove1 (cache_key node_A) (keys store_AB) @ [cache_key node_A]"
    by (elim exE conjE) blast
  have r2: "vnode_componentInstance r = Some 1" using r(2) by simp
  have r3: "keys s1 = [''B'', ''A'']" using r(3) unfolding k by simp
  have c2': "\<exists>r s1. render (Some node_A) None store_AB = Inr (Some r, s1)
          \<and> vnode_componentInstance r = Some 1 \<and> keys s1 = [''B'', ''A'']"
    using r(1) r2 r3 by (intro exI[of _ r] exI[of _ s1] conjI)
  from h1 h2 c1' c2' show ?thesis by (intro conjI) simp_all
qed

subsection \<open>C4: the tag test on removal\<close>

lemma must_destroy_iff:
  "must_destroy e cur \<longleftrightarrow> (\<forall>cv. cur = Some cv \<longrightarrow> tag e \<noteq> vnode_tag cv)"
  by (cases cur) (simp_all add: must_destroy_def)

lemma cacheVNode_evicts:
  assumes inv: "store_inv s" and ok: "host_ok s CacheVNode"
    and v: "vnodeToCache s = Some v"
    and over: "truthy_max (max_prop s)"
              "length_exceeds (Suc (length (keys s))) (parseInt (max_prop s))"
    and hd: "keys s = k0 # ks"
  shows "\<exists>s' e0 c0 k. cacheVNode s = Inr s' \<and> keyToCache s = Some k
           \<and> obj_get (cache s) k0 = Some e0 \<and> componentInstance e0 = Some c0
           \<and> keys s' = ks @ [k] \<and> k0 \<notin> set (keys s')
           \<and> destroyed_log s' = destroyed_log s @ (if must_destroy e0 (cur_vnode s) then [c0] else [])
           \<and> (\<forall>k'. obj_get (cache s') k' = (if k' = k0 then None
                                            else if k' = k then Some (entry_of v)
                                            else obj_get (cache s) k'))"
proof -
  from inv v obtain k where k: "keyToCache s = Some k" "obj_get (cache s) k = None"
    by (auto simp: store_inv_def staged_ok_def)
  let ?a = "admitted v k s"
  have ci: "cache_inv s" using inv by (simp add: store_inv_def)
  have yes: "overflows ?a" using over by (simp add: overflows_def admitted_def)
  have "k0 \<in> set (keys s)" using hd by simp
  then obtain e0 where e0: "obj_get (cache s) k0 = Some e0"
    using cache_inv_keys[OF ci, of k0] by auto
  from cache_inv_inst[OF ci e0] obtain c0 where c0: "componentInstance e0 = Some c0" by blast
  have ne: "k0 \<noteq> k" using e0 k(2) by auto
  have e0a: "obj_get (cache ?a) k0 = Some e0" using e0 ne by (simp add: admitted_def)
  have dist: "k0 \<notin> set ks" using cache_inv_distinct[OF ci] hd by simp
  define s3 where "s3 = ?a\<lparr>cache := obj_set (cache ?a) k0 None, keys := ks @ [k],
                         destroyed_log := destroyed_log s @ (if must_destroy e0 (cur_vnode s) then [c0] else [])\<rparr>"
  have prune: "pruneCacheEntry (hd (keys s @ [k])) (cur_vnode s) ?a = Inr s3"
    using e0a c0 hd ne dist
    by (simp add: pruneCacheEntry_eq s3_def admitted_def)
  have cv: "cacheVNode s = Inr (s3\<lparr>vnodeToCache := None\<rparr>)"
    using yes prune by (simp add: cacheVNode_staged[OF v k(1)])
  let ?s' = "s3\<lparr>vnodeToCache := None\<rparr>"
  have f1: "keys ?s' = ks @ [k]" by (simp add: s3_def)
  have f2: "k0 \<notin> set (keys ?s')" using ne dist by (simp add: s3_def)
  have f3: "destroyed_log ?s' = destroyed_log s @ (if must_destroy e0 (cur_vnode s) then [c0] else [])"
    by (simp add: s3_def)
  have f4: "\<forall>k'. obj_get (cache ?s') k' = (if k' = k0 then None
                                            else if k' = k then Some (entry_of v)
                                            else obj_get (cache s) k')"
    by (simp add: s3_def admitted_def)
  from cv k(1) e0 c0 f1 f2 f3 f4 show ?thesis by blast
qed

lemma pruneCache_tag_rule:
  assumes inv: "store_inv s"
  shows "\<exists>s'. pruneCache f s = Inr s' \<and> removed_with_tag_test (policy_rejects f s) s s'"
proof -
  let ?P = "policy_rejects f s"
  let ?new = "destroy_calls (\<lambda>e. True) (cur_vnode s) (cache s) ?P"
  have ci: "cache_inv s" using inv by (simp add: store_inv_def)
  from pruneCache_result[OF ci, of f] obtain s' where
    s': "pruneCache f s = Inr s'" "cache_inv s'"
      "\<And>k. obj_get (cache s') k = (if k \<in> set ?P then None else obj_get (cache s) k)"
      "destroyed_log s' = destroyed_log s @ ?new"
    by blast
  have "distinct (destroyed_log s')" by (rule cache_inv_log[OF s'(2)])
  then have dn: "distinct ?new" by (simp add: s'(4))
  have mem: "c \<in> set ?new \<longleftrightarrow>
               (\<exists>k \<in> set ?P. \<exists>e. obj_get (cache s) k = Some e \<and> must_destroy e (cur_vnode s)
                                \<and> componentInstance e = Some c)" for c
    unfolding destroy_calls_mem by simp
  have rule: "if k \<in> set ?P
                then obj_get (cache s') k = None \<and> k \<notin> set (keys s')
                     \<and> (c \<in> set ?new \<longleftrightarrow> (\<forall>cv. cur_vnode s = Some cv \<longrightarrow> tag e \<noteq> vnode_tag cv))
                else obj_get (cache s') k = Some e \<and> k \<in> set (keys s') \<and> c \<notin> set ?new"
    if e: "obj_get (cache s) k = Some e" and c: "componentInstance e = Some c" for k e c
  proof (cases "k \<in> set ?P")
    case True
    have gone: "obj_get (cache s') k = None" using s'(3)[of k] True by simp
    have out: "k \<notin> set (keys s')" using cache_inv_keys[OF s'(2), of k] gone by simp
    have "c \<in> set ?new \<longleftrightarrow> must_destroy e (cur_vnode s)"
    proof
      assume "c \<in> set ?new"
      then obtain k' e' where k': "obj_get (cache s) k' = Some e'" "must_destroy e' (cur_vnode s)"
        "componentInstance e' = Some c"
        unfolding mem by blast
      have "k' = k" using cache_inv_inj[OF ci k'(1) e] k'(3) c by simp
      then show "must_destroy e (cur_vnode s)" using k'(1,2) e by simp
    next
      assume "must_destroy e (cur_vnode s)"
      then show "c \<in> set ?new" unfolding mem using True e c by blast
    qed
    with True gone out show ?thesis by (simp add: must_destroy_iff)
  next
    case False
    have kept: "obj_get (cache s') k = Some e" using s'(3)[of k] False e by simp
    have inn: "k \<in> set (keys s')" using cache_inv_keys[OF s'(2), of k] kept by simp
    have "c \<notin> set ?new"
    proof
      assume "c \<in> set ?new"
      then obtain k' e' where k': "k' \<in> set ?P" "obj_get (cache s) k' = Some e'"
        "componentInstance e' = Some c"
        unfolding mem by blast
      have "k' = k" using cache_inv_inj[OF ci k'(2) e] k'(3) c by simp
      with k'(1) False show False by simp
    qed
    with False kept inn show ?thesis by simp
  qed
  have src: "\<exists>k e. k \<in> set ?P \<and> obj_get (cache s) k = Some e \<and> componentInstance e = Some c"
    if "c \<in> set ?new" for c
    using that unfolding mem by blast
  have "removed_with_tag_test ?P s s'"
    unfolding removed_with_tag_test_def
    using s'(4) dn rule src by (intro exI[of _ ?new]) blast
  with s'(1) show ?thesis by blast
qed

lemma policy_rejects_stateless:
  assumes "stateless val"
  shows "k \<in> set (policy_rejects (include_test val) s) \<longleftrightarrow>
           (\<exists>e. obj_get (cache s) k = Some e \<and> truthy (name e)
                \<and> \<not> spec_matches val (the (name e)) (lastIndex s))"
    and "k \<in> set (policy_rejects (exclude_test val) s) \<longleftrightarrow>
           (\<exists>e. obj_get (cache s) k = Some e \<and> truthy (name e)
                \<and> spec_matches val (the (name e)) (lastIndex s))"
proof -
  let ?h = "lastIndex s"
  have sm: "spec_matches val n h = spec_matches val n ?h" for n h
    using matches_stateless(2)[OF assms, of n h ?h] by (simp add: matches_refined)
  have la: "lastIndex_after val n h = h" for n h
    using matches_stateless(1)[OF assms, of n h] by (simp add: matches_refined)
  have inc: "include_test val n h = (spec_matches val n ?h, h)" for n h
    using sm[of n h] la[of n h] by (simp add: include_test_def)
  have exc: "exclude_test val n h = (\<not> spec_matches val n ?h, h)" for n h
    using sm[of n h] la[of n h] by (simp add: exclude_test_def)
  show "k \<in> set (policy_rejects (include_test val) s) \<longleftrightarrow>
           (\<exists>e. obj_get (cache s) k = Some e \<and> truthy (name e)
                \<and> \<not> spec_matches val (the (name e)) (lastIndex s))"
    unfolding policy_rejects_def rejected_keys_pure[of "include_test val", OF inc]
    by (auto split: option.splits dest: obj_get_in)
  show "k \<in> set (policy_rejects (exclude_test val) s) \<longleftrightarrow>
           (\<exists>e. obj_get (cache s) k = Some e \<and> truthy (name e)
                \<and> spec_matches val (the (name e)) (lastIndex s))"
    unfolding policy_rejects_def rejected_keys_pure[of "exclude_test val", OF exc]
    by (auto split: option.splits dest: obj_get_in)
qed

lemma store_AB_staged_C_reached:
  "host_ok_run ops_AB_staged_C (created PUndefined PUndefined (MaxNumber 2))
   \<and> run ops_AB_staged_C (created PUndefined PUndefined (MaxNumber 2)) = Inr store_AB_staged_C"
  by (simp add: ops_AB_staged_C_def store_AB_staged_C_def store_AB_def example_defs eval_defs)

text \<open>
  C4. In any state the store can reach: (1) when \<open>cacheVNode\<close> commits a candidate and the
  capacity test fires, the entry of the head key \<open>k0\<close> is removed from \<open>cache\<close> and \<open>keys\<close>,
  and \<open>$destroy()\<close> is called on its instance exactly when its tag differs from the tag of
  the current node \<open>_vnode\<close> (with no current node it is called). (2) Each watcher, called
  with the new value of its prop, ends normally. The include watcher selects the entries
  with a truthy name that the new value does not match, the exclude watcher those with a
  truthy name that the new value matches, tested in the order of the loop. The selected
  entries, and no others, are removed from \<open>cache\<close> and from \<open>keys\<close>, and \<open>$destroy()\<close> is
  called once on the instance of each removed entry whose tag differs from the tag of
  \<open>_vnode\<close>, and on nothing else. (3) For a value that is not a regular expression with the
  flag \<open>g\<close> or \<open>y\<close> the order of the tests does not matter: the selected keys are those of
  the entries with a truthy name that the value does not match, respectively matches.
\<close>

theorem removal_destroys_unless_tag_matches:
  "host_ok_run ops (created inc exc m) \<and> run ops (created inc exc m) = Inr s \<longrightarrow>
     (host_ok s CacheVNode \<and> vnodeToCache s = Some v \<and> truthy_max (max_prop s)
        \<and> length_exceeds (Suc (length (keys s))) (parseInt (max_prop s)) \<and> keys s = k0 # ks
      \<longrightarrow> (\<exists>s' e0 c0. cacheVNode s = Inr s'
             \<and> obj_get (cache s) k0 = Some e0 \<and> componentInstance e0 = Some c0
             \<and> obj_get (cache s') k0 = None \<and> k0 \<notin> set (keys s')
             \<and> destroyed_log s' = destroyed_log s
                  @ (if (\<forall>cv. cur_vnode s = Some cv \<longrightarrow> tag e0 \<noteq> vnode_tag cv) then [c0] else [])))
     \<and> (\<exists>s'. watch_include val s = Inr s'
           \<and> removed_with_tag_test (policy_rejects (include_test val) s) s s')
     \<and> (\<exists>s'. watch_exclude val s = Inr s'
           \<and> removed_with_tag_test (policy_rejects (exclude_test val) s) s s')
     \<and> (stateless val \<longrightarrow>
           (\<forall>k. k \<in> set (policy_rejects (include_test val) s) \<longleftrightarrow>
                  (\<exists>e. obj_get (cache s) k = Some e \<and> truthy (name e)
                       \<and> \<not> spec_matches val (the (name e)) (lastIndex s)))
           \<and> (\<forall>k. k \<in> set (policy_rejects (exclude_test val) s) \<longleftrightarrow>
                  (\<exists>e. obj_get (cache s) k = Some e \<and> truthy (name e)
                       \<and> spec_matches val (the (name e)) (lastIndex s))))"
proof (intro impI)
  assume "host_ok_run ops (created inc exc m) \<and> run ops (created inc exc m) = Inr s"
  then have inv: "store_inv s" using reach_inv by blast
  have evict: "\<exists>s' e0 c0. cacheVNode s = Inr s'
             \<and> obj_get (cache s) k0 = Some e0 \<and> componentInstance e0 = Some c0
             \<and> obj_get (cache s') k0 = None \<and> k0 \<notin> set (keys s')
             \<and> destroyed_log s' = destroyed_log s
                  @ (if (\<forall>cv. cur_vnode s = Some cv \<longrightarrow> tag e0 \<noteq> vnode_tag cv) then [c0] else [])"
    if a: "host_ok s CacheVNode \<and> vnodeToCache s = Some v \<and> truthy_max (max_prop s)
        \<and> length_exceeds (Suc (length (keys s))) (parseInt (max_prop s)) \<and> keys s = k0 # ks"
  proof -
    from a have h: "host_ok s CacheVNode" "vnodeToCache s = Some v" "truthy_max (max_prop s)"
      "length_exceeds (Suc (length (keys s))) (parseInt (max_prop s))" "keys s = k0 # ks"
      by blast+
    from cacheVNode_evicts[OF inv h] obtain s' e0 c0 where
      r: "cacheVNode s = Inr s'" "obj_get (cache s) k0 = Some e0" "componentInstance e0 = Some c0"
        "k0 \<notin> set (keys s')"
        "destroyed_log s' = destroyed_log s @ (if must_destroy e0 (cur_vnode s) then [c0] else [])"
        "\<And>k'. obj_get (cache s') k' = (if k' = k0 then None else obj_get (cache s') k')"
      by auto
    have "obj_get (cache s') k0 = None" using r(6)[of k0] by simp
    with r(1,2,3,4,5) show ?thesis unfolding must_destroy_iff by blast
  qed
  have inc: "\<exists>s'. watch_include val s = Inr s'
           \<and> removed_with_tag_test (policy_rejects (include_test val) s) s s'"
    unfolding watch_include_def include_filter_include_test by (rule pruneCache_tag_rule[OF inv])
  have exc: "\<exists>s'. watch_exclude val s = Inr s'
           \<and> removed_with_tag_test (policy_rejects (exclude_test val) s) s s'"
    unfolding watch_exclude_def exclude_filter_exclude_test by (rule pruneCache_tag_rule[OF inv])
  have cf: "stateless val \<longrightarrow>
           (\<forall>k. k \<in> set (policy_rejects (include_test val) s) \<longleftrightarrow>
                  (\<exists>e. obj_get (cache s) k = Some e \<and> truthy (name e)
                       \<and> \<not> spec_matches val (the (name e)) (lastIndex s)))
           \<and> (\<forall>k. k \<in> set (policy_rejects (exclude_test val) s) \<longleftrightarrow>
                  (\<exists>e. obj_get (cache s) k = Some e \<and> truthy (name e)
                       \<and> spec_matches val (the (name e)) (lastIndex s)))"
    using policy_rejects_stateless[of val _ s] by blast
  have ev: "host_ok s CacheVNode \<and> vnodeToCache s = Some v \<and> truthy_max (max_prop s)
        \<and> length_exceeds (Suc (length (keys s))) (parseInt (max_prop s)) \<and> keys s = k0 # ks
      \<longrightarrow> (\<exists>s' e0 c0. cacheVNode s = Inr s'
             \<and> obj_get (cache s) k0 = Some e0 \<and> componentInstance e0 = Some c0
             \<and> obj_get (cache s') k0 = None \<and> k0 \<notin> set (keys s')
             \<and> destroyed_log s' = destroyed_log s
                  @ (if (\<forall>cv. cur_vnode s = Some cv \<longrightarrow> tag e0 \<noteq> vnode_tag cv) then [c0] else []))"
    using evict by blast
  show "(host_ok s CacheVNode \<and> vnodeToCache s = Some v \<and> truthy_max (max_prop s)
        \<and> length_exceeds (Suc (length (keys s))) (parseInt (max_prop s)) \<and> keys s = k0 # ks
      \<longrightarrow> (\<exists>s' e0 c0. cacheVNode s = Inr s'
             \<and> obj_get (cache s) k0 = Some e0 \<and> componentInstance e0 = Some c0
             \<and> obj_get (cache s') k0 = None \<and> k0 \<notin> set (keys s')
             \<and> destroyed_log s' = destroyed_log s
                  @ (if (\<forall>cv. cur_vnode s = Some cv \<longrightarrow> tag e0 \<noteq> vnode_tag cv) then [c0] else [])))
     \<and> (\<exists>s'. watch_include val s = Inr s'
           \<and> removed_with_tag_test (policy_rejects (include_test val) s) s s')
     \<and> (\<exists>s'. watch_exclude val s = Inr s'
           \<and> removed_with_tag_test (policy_rejects (exclude_test val) s) s s')
     \<and> (stateless val \<longrightarrow>
           (\<forall>k. k \<in> set (policy_rejects (include_test val) s) \<longleftrightarrow>
                  (\<exists>e. obj_get (cache s) k = Some e \<and> truthy (name e)
                       \<and> \<not> spec_matches val (the (name e)) (lastIndex s)))
           \<and> (\<forall>k. k \<in> set (policy_rejects (exclude_test val) s) \<longleftrightarrow>
                  (\<exists>e. obj_get (cache s) k = Some e \<and> truthy (name e)
                       \<and> spec_matches val (the (name e)) (lastIndex s))))"
    by (rule conjI[OF ev conjI[OF inc conjI[OF exc cf]]])
qed

lemma removed_with_tag_testD:
  assumes "removed_with_tag_test P s s'"
  obtains new where "destroyed_log s' = destroyed_log s @ new" "distinct new"
    "\<And>k e c. obj_get (cache s) k = Some e \<Longrightarrow> componentInstance e = Some c \<Longrightarrow> k \<in> set P \<Longrightarrow>
       obj_get (cache s') k = None \<and> k \<notin> set (keys s')
       \<and> (c \<in> set new \<longleftrightarrow> (\<forall>cv. cur_vnode s = Some cv \<longrightarrow> tag e \<noteq> vnode_tag cv))"
    "\<And>k e c. obj_get (cache s) k = Some e \<Longrightarrow> componentInstance e = Some c \<Longrightarrow> k \<notin> set P \<Longrightarrow>
       obj_get (cache s') k = Some e \<and> k \<in> set (keys s') \<and> c \<notin> set new"
proof -
  from assms obtain new where n: "destroyed_log s' = destroyed_log s @ new" "distinct new"
    and r: "\<forall>k e c. obj_get (cache s) k = Some e \<and> componentInstance e = Some c \<longrightarrow>
               (if k \<in> set P
                then obj_get (cache s') k = None \<and> k \<notin> set (keys s')
                     \<and> (c \<in> set new \<longleftrightarrow> (\<forall>cv. cur_vnode s = Some cv \<longrightarrow> tag e \<noteq> vnode_tag cv))
                else obj_get (cache s') k = Some e \<and> k \<in> set (keys s') \<and> c \<notin> set new)"
    unfolding removed_with_tag_test_def by blast
  show thesis
  proof (rule that[OF n])
    fix k e c
    assume "obj_get (cache s) k = Some e" "componentInstance e = Some c" "k \<in> set P"
    then show "obj_get (cache s') k = None \<and> k \<notin> set (keys s')
       \<and> (c \<in> set new \<longleftrightarrow> (\<forall>cv. cur_vnode s = Some cv \<longrightarrow> tag e \<noteq> vnode_tag cv))"
      using r[rule_format, of k e c] by simp
  next
    fix k e c
    assume "obj_get (cache s) k = Some e" "componentInstance e = Some c" "k \<notin> set P"
    then show "obj_get (cache s') k = Some e \<and> k \<in> set (keys s') \<and> c \<notin> set new"
      using r[rule_format, of k e c] by simp
  qed
qed

theorem removal_destroys_unless_tag_matches_witness:
  "(host_ok_run ops_AB_staged_C (created PUndefined PUndefined (MaxNumber 2))
      \<and> run ops_AB_staged_C (created PUndefined PUndefined (MaxNumber 2)) = Inr store_AB_staged_C)
   \<and> (host_ok store_AB_staged_C CacheVNode
      \<and> vnodeToCache store_AB_staged_C = Some (patched node_C 3)
      \<and> truthy_max (max_prop store_AB_staged_C)
      \<and> length_exceeds (Suc (length (keys store_AB_staged_C))) (parseInt (max_prop store_AB_staged_C))
      \<and> keys store_AB_staged_C = ''A'' # [''B''])
   \<and> stateless (PString ''Alpha,Beta'')
   \<and> (\<exists>s'. cacheVNode store_AB_staged_C = Inr s'
          \<and> obj_get (cache s') ''A'' = None \<and> ''A'' \<notin> set (keys s') \<and> destroyed_log s' = [])
   \<and> policy_rejects (exclude_test (PString ''Alpha,Beta'')) store_AB_staged_C = [''A'', ''B'']
   \<and> (\<exists>s' new. watch_exclude (PString ''Alpha,Beta'') store_AB_staged_C = Inr s'
          \<and> destroyed_log s' = new \<and> 1 \<notin> set new \<and> 2 \<in> set new
          \<and> obj_get (cache s') ''A'' = None \<and> obj_get (cache s') ''B'' = None
          \<and> ''A'' \<notin> set (keys s') \<and> ''B'' \<notin> set (keys s'))
   \<and> policy_rejects (include_test (PRegExp regexp_alpha_beta_g)) store_AB_staged_C = [''B'']
   \<and> (\<exists>s' new. watch_include (PRegExp regexp_alpha_beta_g) store_AB_staged_C = Inr s'
          \<and> destroyed_log s' = new \<and> 1 \<notin> set new \<and> 2 \<in> set new
          \<and> obj_get (cache s') ''A'' = obj_get (cache store_AB_staged_C) ''A''
          \<and> obj_get (cache s') ''B'' = None
          \<and> ''A'' \<in> set (keys s') \<and> ''B'' \<notin> set (keys s'))
   \<and> (\<forall>k. k \<in> set (policy_rejects (include_test (PString ''Alpha,Beta'')) store_AB_staged_C) \<longleftrightarrow>
          (\<exists>e. obj_get (cache store_AB_staged_C) k = Some e \<and> truthy (name e)
               \<and> \<not> spec_matches (PString ''Alpha,Beta'') (the (name e))
                      (lastIndex store_AB_staged_C)))"
proof -
  let ?s = store_AB_staged_C
  let ?eA = "\<lparr>name = Some ''Alpha'', tag = Some ''tag-a'', componentInstance = Some (1::nat)\<rparr>"
  let ?eB = "\<lparr>name = Some ''Beta'', tag = Some ''tag-b'', componentInstance = Some (2::nat)\<rparr>"
  have h1: "host_ok_run ops_AB_staged_C (created PUndefined PUndefined (MaxNumber 2))
      \<and> run ops_AB_staged_C (created PUndefined PUndefined (MaxNumber 2)) = Inr ?s"
    by (rule store_AB_staged_C_reached)
  have h2: "host_ok ?s CacheVNode
      \<and> vnodeToCache ?s = Some (patched node_C 3)
      \<and> truthy_max (max_prop ?s)
      \<and> length_exceeds (Suc (length (keys ?s))) (parseInt (max_prop ?s))
      \<and> keys ?s = ''A'' # [''B'']"
    by (simp add: store_AB_staged_C_def store_AB_def example_defs eval_defs)
  have h3: "stateless (PString ''Alpha,Beta'')" by simp
  have st: "obj_get (cache ?s) ''A'' = Some ?eA" "obj_get (cache ?s) ''B'' = Some ?eB"
    "cur_vnode ?s = Some node_A" "destroyed_log ?s = []"
    by (simp_all add: store_AB_staged_C_def store_AB_def eval_defs)
  have tags: "\<not> (\<forall>cv. cur_vnode ?s = Some cv \<longrightarrow> tag ?eA \<noteq> vnode_tag cv)"
    "\<forall>cv. cur_vnode ?s = Some cv \<longrightarrow> tag ?eB \<noteq> vnode_tag cv"
    by (simp_all add: st(3) node_A_def component_vnode_def)
  note t = removal_destroys_unless_tag_matches[where ops = ops_AB_staged_C and inc = PUndefined
      and exc = PUndefined and m = "MaxNumber 2" and s = ?s and v = "patched node_C 3"
      and ?k0.0 = "''A''" and ks = "[''B'']", THEN mp, OF h1]
  from t[of "PString ''Alpha,Beta''", THEN conjunct1, THEN mp, OF h2] obtain s' e0 c0 where
    e: "cacheVNode ?s = Inr s'" "obj_get (cache ?s) ''A'' = Some e0" "componentInstance e0 = Some c0"
       "obj_get (cache s') ''A'' = None" "''A'' \<notin> set (keys s')"
       "destroyed_log s' = destroyed_log ?s
          @ (if (\<forall>cv. cur_vnode ?s = Some cv \<longrightarrow> tag e0 \<noteq> vnode_tag cv) then [c0] else [])"
    by blast
  have "e0 = ?eA" using e(2) st(1) by simp
  then have "destroyed_log s' = []"
    using e(6) tags(1) by (simp add: st(4))
  with e(1,4,5) have c1: "\<exists>s'. cacheVNode ?s = Inr s'
          \<and> obj_get (cache s') ''A'' = None \<and> ''A'' \<notin> set (keys s') \<and> destroyed_log s' = []"
    by blast
  have p1: "policy_rejects (exclude_test (PString ''Alpha,Beta'')) ?s = [''A'', ''B'']"
    by (simp add: policy_rejects_def exclude_test_def is_segment_of_iff store_AB_staged_C_def
        store_AB_def eval_defs)
  from t[of "PString ''Alpha,Beta''", THEN conjunct2, THEN conjunct2, THEN conjunct1]
  obtain s2 where
    p: "watch_exclude (PString ''Alpha,Beta'') ?s = Inr s2"
       "removed_with_tag_test [''A'', ''B''] ?s s2"
    unfolding p1 by blast
  from p(2) obtain new2 where
    n2: "destroyed_log s2 = destroyed_log ?s @ new2"
      "\<And>k e c. obj_get (cache ?s) k = Some e \<Longrightarrow> componentInstance e = Some c
         \<Longrightarrow> k \<in> set [''A'', ''B''] \<Longrightarrow>
       obj_get (cache s2) k = None \<and> k \<notin> set (keys s2)
       \<and> (c \<in> set new2 \<longleftrightarrow> (\<forall>cv. cur_vnode ?s = Some cv \<longrightarrow> tag e \<noteq> vnode_tag cv))"
    by (rule removed_with_tag_testD) blast
  from n2(2)[OF st(1), of 1] tags(1)
  have a: "obj_get (cache s2) ''A'' = None" "''A'' \<notin> set (keys s2)" "1 \<notin> set new2" by simp_all
  from n2(2)[OF st(2), of 2] tags(2)
  have b: "obj_get (cache s2) ''B'' = None" "''B'' \<notin> set (keys s2)" "2 \<in> set new2" by simp_all
  have c2: "\<exists>s' new. watch_exclude (PString ''Alpha,Beta'') ?s = Inr s'
          \<and> destroyed_log s' = new \<and> 1 \<notin> set new \<and> 2 \<in> set new
          \<and> obj_get (cache s') ''A'' = None \<and> obj_get (cache s') ''B'' = None
          \<and> ''A'' \<notin> set (keys s') \<and> ''B'' \<notin> set (keys s')"
    using p(1) n2(1) a b by (simp add: st(4))
  have p3: "policy_rejects (include_test (PRegExp regexp_alpha_beta_g)) ?s = [''B'']"
    by (simp add: policy_rejects_def include_test_def regexp_alpha_beta_g_def store_AB_staged_C_def
        store_AB_def eval_defs)
  from t[of "PRegExp regexp_alpha_beta_g", THEN conjunct2, THEN conjunct1]
  obtain s3 where
    q: "watch_include (PRegExp regexp_alpha_beta_g) ?s = Inr s3"
       "removed_with_tag_test [''B''] ?s s3"
    unfolding p3 by blast
  from q(2) obtain new3 where
    n3: "destroyed_log s3 = destroyed_log ?s @ new3"
      "\<And>k e c. obj_get (cache ?s) k = Some e \<Longrightarrow> componentInstance e = Some c
         \<Longrightarrow> k \<in> set [''B''] \<Longrightarrow>
       obj_get (cache s3) k = None \<and> k \<notin> set (keys s3)
       \<and> (c \<in> set new3 \<longleftrightarrow> (\<forall>cv. cur_vnode ?s = Some cv \<longrightarrow> tag e \<noteq> vnode_tag cv))"
      "\<And>k e c. obj_get (cache ?s) k = Some e \<Longrightarrow> componentInstance e = Some c
         \<Longrightarrow> k \<notin> set [''B''] \<Longrightarrow>
       obj_get (cache s3) k = Some e \<and> k \<in> set (keys s3) \<and> c \<notin> set new3"
    by (rule removed_with_tag_testD) blast
  from n3(3)[OF st(1), of 1]
  have a3: "obj_get (cache s3) ''A'' = Some ?eA" "''A'' \<in> set (keys s3)" "1 \<notin> set new3" by simp_all
  from n3(2)[OF st(2), of 2] tags(2)
  have b3: "obj_get (cache s3) ''B'' = None" "''B'' \<notin> set (keys s3)" "2 \<in> set new3" by simp_all
  have c3: "\<exists>s' new. watch_include (PRegExp regexp_alpha_beta_g) ?s = Inr s'
          \<and> destroyed_log s' = new \<and> 1 \<notin> set new \<and> 2 \<in> set new
          \<and> obj_get (cache s') ''A'' = obj_get (cache ?s) ''A''
          \<and> obj_get (cache s') ''B'' = None
          \<and> ''A'' \<in> set (keys s') \<and> ''B'' \<notin> set (keys s')"
    using q(1) n3(1) a3 b3 by (simp add: st)
  from t[of "PString ''Alpha,Beta''", THEN conjunct2, THEN conjunct2, THEN conjunct2, THEN mp,
      OF h3, THEN conjunct1]
  have c4: "\<forall>k. k \<in> set (policy_rejects (include_test (PString ''Alpha,Beta'')) ?s) \<longleftrightarrow>
          (\<exists>e. obj_get (cache ?s) k = Some e \<and> truthy (name e)
               \<and> \<not> spec_matches (PString ''Alpha,Beta'') (the (name e)) (lastIndex ?s))" .
  show ?thesis
    by (rule conjI[OF h1 conjI[OF h2 conjI[OF h3 conjI[OF c1 conjI[OF p1 conjI[OF c2
          conjI[OF p3 conjI[OF c3 c4]]]]]]]])
qed

subsection \<open>C5: pruning on a policy change\<close>

text \<open>
  C5. The code at the input on which it departs from the claim. \<open>A\<close> and \<open>B\<close> are cached
  under the include specification \<open>Alpha,Beta\<close>; the parent then stops passing \<open>include\<close>,
  and the include watcher runs with the new value, \<open>undefined\<close>. With no specification set
  both names are admissible, so no entry should go; the watcher, which passes the value to
  \<open>matches\<close> without testing it, prunes both entries and destroys both instances. The
  other paths do test the value: on the same cache the exclude watcher, run with the value
  \<open>undefined\<close>, removes nothing, and \<open>render\<close>, with \<open>include\<close> unset, finds \<open>A\<close> in the cache
  and hands out its instance.
\<close>

theorem include_watcher_prunes_all_on_unset_value:
  "run (admit_ops node_A 1 @ admit_ops node_B 2
         @ [HostProps PUndefined PUndefined (MaxNumber 2), WatchInclude PUndefined])
       (created (PString ''Alpha,Beta'') PUndefined (MaxNumber 2))
     = Inr \<lparr>cache = [(''A'', None), (''B'', None)], keys = [], vnodeToCache = None,
            keyToCache = Some ''B'', cur_vnode = None, include_prop = PUndefined,
            exclude_prop = PUndefined, max_prop = MaxNumber 2, destroyed_log = [1, 2],
            lastIndex = (\<lambda>a. 0)\<rparr>
   \<and> claimed_isAdmissible (Some ''Alpha'') PUndefined PUndefined (\<lambda>a. 0)
   \<and> claimed_isAdmissible (Some ''Beta'') PUndefined PUndefined (\<lambda>a. 0)
   \<and> run (admit_ops node_A 1 @ admit_ops node_B 2
         @ [HostProps PUndefined PUndefined (MaxNumber 2), WatchExclude PUndefined])
       (created (PString ''Alpha,Beta'') PUndefined (MaxNumber 2))
     = Inr store_AB
   \<and> render (Some node_A) None store_AB
     = Inr (Some (node_A\<lparr>vnode_componentInstance := Some 1,
                         vnode_data := Some \<lparr>keepAlive = True\<rparr>\<rparr>),
            store_AB\<lparr>keys := [''B'', ''A'']\<rparr>)"
  by (simp add: store_AB_def claimed_isAdmissible_def example_defs eval_defs)

subsection \<open>C6: admissibility\<close>

lemma not_cached_refined:
  "fst (not_cached nm inc exc h) \<longleftrightarrow> \<not> amended_isAdmissible nm inc exc h"
  unfolding not_cached_def not_included_def excluded_def amended_isAdmissible_def
  by (simp add: is_set_truthy present_truthy matches_refined)

lemma render_decision:
  assumes co: "componentOptions v = Some co" and d: "vnode_data v = Some d"
  shows "render (Some v) slot0 s =
           (if amended_isAdmissible (local_getComponentName (Some co))
                 (include_prop s) (exclude_prop s) (lastIndex s)
            then (case obj_get (cache s) (vnode_cache_key v co) of
                    Some e \<Rightarrow>
                      Inr (Some (v\<lparr>vnode_componentInstance := componentInstance e,
                                   vnode_data := Some (d\<lparr>keepAlive := True\<rparr>)\<rparr>),
                           s\<lparr>keys := remove1 (vnode_cache_key v co) (keys s) @ [vnode_cache_key v co],
                              lastIndex := snd (not_cached (local_getComponentName (Some co))
                                                  (include_prop s) (exclude_prop s) (lastIndex s))\<rparr>)
                  | None \<Rightarrow>
                      Inr (Some (v\<lparr>vnode_data := Some (d\<lparr>keepAlive := True\<rparr>)\<rparr>),
                           s\<lparr>vnodeToCache := Some (v\<lparr>vnode_data := Some (d\<lparr>keepAlive := True\<rparr>)\<rparr>),
                              keyToCache := Some (vnode_cache_key v co),
                              lastIndex := snd (not_cached (local_getComponentName (Some co))
                                                  (include_prop s) (exclude_prop s) (lastIndex s))\<rparr>))
            else Inr (Some v, s\<lparr>lastIndex := snd (not_cached (local_getComponentName (Some co))
                                                  (include_prop s) (exclude_prop s) (lastIndex s))\<rparr>))"
proof (cases "fst (not_cached (local_getComponentName (Some co)) (include_prop s) (exclude_prop s)
                    (lastIndex s))")
  case True
  then have "\<not> amended_isAdmissible (local_getComponentName (Some co))
                 (include_prop s) (exclude_prop s) (lastIndex s)"
    by (simp add: not_cached_refined)
  then show ?thesis using render_uncached[OF co True, of slot0] by simp
next
  case False
  then have adm: "amended_isAdmissible (local_getComponentName (Some co))
                 (include_prop s) (exclude_prop s) (lastIndex s)"
    by (simp add: not_cached_refined)
  show ?thesis
  proof (cases "obj_get (cache s) (vnode_cache_key v co)")
    case None
    then show ?thesis using adm render_miss[OF co False d None, of slot0] by simp
  next
    case (Some e)
    then show ?thesis using adm render_hit[OF co False d Some, of slot0] by simp
  qed
qed

text \<open>
  C6, first as the claim states it. (1) With \<open>include\<close> given as the empty string, the name
  \<open>Alpha\<close> is none of its segments, yet the code finds it admissible and caches the node:
  the test \<open>include && ...\<close> takes the empty string as no specification. (2) With \<open>exclude\<close>
  given as \<open>a,\<close> the empty name is one of its segments, yet the code finds it admissible:
  \<open>exclude && name && ...\<close> takes the empty name as no name.
\<close>

theorem admissibility_counterexample:
  "\<not> claimed_isAdmissible (Some ''Alpha'') (PString '''') PUndefined (\<lambda>a. 0)
   \<and> \<not> fst (not_cached (Some ''Alpha'') (PString '''') PUndefined (\<lambda>a. 0))
   \<and> run (admit_ops node_A 1) (created (PString '''') PUndefined MaxUndefined)
       = Inr \<lparr>cache = [(''A'', Some \<lparr>name = Some ''Alpha'', tag = Some ''tag-a'',
                                      componentInstance = Some 1\<rparr>)],
              keys = [''A''], vnodeToCache = None, keyToCache = Some ''A'', cur_vnode = None,
              include_prop = PString '''', exclude_prop = PUndefined, max_prop = MaxUndefined,
              destroyed_log = [], lastIndex = (\<lambda>a. 0)\<rparr>
   \<and> \<not> claimed_isAdmissible (Some '''') PUndefined (PString ''a,'') (\<lambda>a. 0)
   \<and> \<not> fst (not_cached (Some '''') PUndefined (PString ''a,'') (\<lambda>a. 0))"
  by (simp add: claimed_isAdmissible_def is_segment_of_iff example_defs eval_defs)

text \<open>
  C6, amended. A specification counts as set when it is truthy (given, and not the empty
  string), a name as present when it is a non-empty string. Admissibility is false when
  \<open>include\<close> is set and the name is absent or does not match it, false when \<open>exclude\<close> is
  set and the name is present and matches it, and true otherwise. A string specification
  matches exactly the names that are one of its comma-separated segments, a list its
  elements, a pattern the names that its \<open>test\<close> accepts. This is \<open>amended_isAdmissible\<close>,
  and the theorem says that the code decides by it: (1) \<open>matches\<close> returns what the
  specification calls a match; (2) the test of \<open>render\<close> is true exactly when the name is
  not admissible; (3) for a component node with a \<open>data\<close> object, \<open>render\<close> reaches the cache
  exactly when the name is admissible, where it hands out the cached instance and moves
  the key to the tail of \<open>keys\<close>, or stages the node when the key holds no entry; a node
  whose name is not admissible is returned as it is, with no field of the component
  changed. Only the \<open>lastIndex\<close> of a regular expression with the flag \<open>g\<close> or \<open>y\<close> may change.
\<close>

theorem admissibility_decision:
  "(fst (matches p n h) \<longleftrightarrow> spec_matches p n h)
   \<and> (fst (not_cached nm inc exc h) \<longleftrightarrow> \<not> amended_isAdmissible nm inc exc h)
   \<and> (componentOptions v = Some co \<and> vnode_data v = Some d \<longrightarrow>
        (\<exists>h'. (stateless (include_prop s) \<and> stateless (exclude_prop s) \<longrightarrow> h' = lastIndex s)
           \<and> render (Some v) slot0 s =
               (if amended_isAdmissible (local_getComponentName (Some co))
                     (include_prop s) (exclude_prop s) (lastIndex s)
                then (case obj_get (cache s) (vnode_cache_key v co) of
                        Some e \<Rightarrow>
                          Inr (Some (v\<lparr>vnode_componentInstance := componentInstance e,
                                       vnode_data := Some (d\<lparr>keepAlive := True\<rparr>)\<rparr>),
                               s\<lparr>keys := remove1 (vnode_cache_key v co) (keys s)
                                           @ [vnode_cache_key v co],
                                  lastIndex := h'\<rparr>)
                      | None \<Rightarrow>
                          Inr (Some (v\<lparr>vnode_data := Some (d\<lparr>keepAlive := True\<rparr>)\<rparr>),
                               s\<lparr>vnodeToCache := Some (v\<lparr>vnode_data := Some (d\<lparr>keepAlive := True\<rparr>)\<rparr>),
                                  keyToCache := Some (vnode_cache_key v co),
                                  lastIndex := h'\<rparr>))
                else Inr (Some v, s\<lparr>lastIndex := h'\<rparr>))))"
proof (intro conjI impI)
  show "fst (matches p n h) \<longleftrightarrow> spec_matches p n h" by (rule matches_refined)
  show "fst (not_cached nm inc exc h) \<longleftrightarrow> \<not> amended_isAdmissible nm inc exc h"
    by (rule not_cached_refined)
next
  assume a: "componentOptions v = Some co \<and> vnode_data v = Some d"
  let ?h = "snd (not_cached (local_getComponentName (Some co))
                   (include_prop s) (exclude_prop s) (lastIndex s))"
  have "stateless (include_prop s) \<and> stateless (exclude_prop s) \<longrightarrow> ?h = lastIndex s"
    using not_cached_stateless(1) by blast
  moreover note render_decision[of v co d slot0 s]
  ultimately show "\<exists>h'. (stateless (include_prop s) \<and> stateless (exclude_prop s) \<longrightarrow> h' = lastIndex s)
           \<and> render (Some v) slot0 s =
               (if amended_isAdmissible (local_getComponentName (Some co))
                     (include_prop s) (exclude_prop s) (lastIndex s)
                then (case obj_get (cache s) (vnode_cache_key v co) of
                        Some e \<Rightarrow>
                          Inr (Some (v\<lparr>vnode_componentInstance := componentInstance e,
                                       vnode_data := Some (d\<lparr>keepAlive := True\<rparr>)\<rparr>),
                               s\<lparr>keys := remove1 (vnode_cache_key v co) (keys s)
                                           @ [vnode_cache_key v co],
                                  lastIndex := h'\<rparr>)
                      | None \<Rightarrow>
                          Inr (Some (v\<lparr>vnode_data := Some (d\<lparr>keepAlive := True\<rparr>)\<rparr>),
                               s\<lparr>vnodeToCache := Some (v\<lparr>vnode_data := Some (d\<lparr>keepAlive := True\<rparr>)\<rparr>),
                                  keyToCache := Some (vnode_cache_key v co),
                                  lastIndex := h'\<rparr>))
                else Inr (Some v, s\<lparr>lastIndex := h'\<rparr>))"
    using a by (intro exI[of _ ?h]) simp
qed

theorem admissibility_decision_witness:
  "(componentOptions node_B = Some \<lparr>Ctor_cid = 1, Ctor_name = Some ''Beta'', opts_tag = Some ''tag-b''\<rparr>
      \<and> vnode_data node_B = Some \<lparr>keepAlive = False\<rparr>)
   \<and> (componentOptions node_A = Some \<lparr>Ctor_cid = 1, Ctor_name = Some ''Alpha'', opts_tag = Some ''tag-a''\<rparr>
      \<and> vnode_data node_A = Some \<lparr>keepAlive = False\<rparr>)
   \<and> (stateless (include_prop (created (PString ''Alpha,Gamma'') PUndefined MaxUndefined))
      \<and> stateless (exclude_prop (created (PString ''Alpha,Gamma'') PUndefined MaxUndefined)))
   \<and> spec_matches (PString ''Alpha,Gamma'') ''Gamma'' (\<lambda>a. 0)
   \<and> \<not> amended_isAdmissible (Some ''Beta'') (PString ''Alpha,Gamma'') PUndefined (\<lambda>a. 0)
   \<and> render (Some node_B) None (created (PString ''Alpha,Gamma'') PUndefined MaxUndefined)
       = Inr (Some node_B, created (PString ''Alpha,Gamma'') PUndefined MaxUndefined)
   \<and> amended_isAdmissible (Some ''Alpha'') (PString ''Alpha,Gamma'') PUndefined (\<lambda>a. 0)
   \<and> render (Some node_A) None (created (PString ''Alpha,Gamma'') PUndefined MaxUndefined)
       = Inr (Some (node_A\<lparr>vnode_data := Some \<lparr>keepAlive = True\<rparr>\<rparr>),
              (created (PString ''Alpha,Gamma'') PUndefined MaxUndefined)
                \<lparr>vnodeToCache := Some (node_A\<lparr>vnode_data := Some \<lparr>keepAlive = True\<rparr>\<rparr>),
                 keyToCache := Some ''A''\<rparr>)
   \<and> amended_isAdmissible (Some ''Beta'') (PRegExp regexp_alpha_beta_g) PUndefined (\<lambda>a. 0)
   \<and> \<not> amended_isAdmissible (Some ''Beta'') (PRegExp regexp_alpha_beta_g) PUndefined (\<lambda>a. 5)
   \<and> (\<exists>h'. render (Some node_B) None
                ((created (PRegExp regexp_alpha_beta_g) PUndefined MaxUndefined)\<lparr>lastIndex := (\<lambda>a. 5)\<rparr>)
              = Inr (Some node_B,
                     (created (PRegExp regexp_alpha_beta_g) PUndefined MaxUndefined)\<lparr>lastIndex := h'\<rparr>))"
proof -
  let ?coA = "\<lparr>Ctor_cid = 1, Ctor_name = Some ''Alpha'', opts_tag = Some ''tag-a''\<rparr>"
  let ?coB = "\<lparr>Ctor_cid = 1, Ctor_name = Some ''Beta'', opts_tag = Some ''tag-b''\<rparr>"
  let ?d = "\<lparr>keepAlive = False\<rparr>"
  let ?inc = "PString ''Alpha,Gamma''"
  let ?s = "created ?inc PUndefined MaxUndefined"
  let ?r = "created (PRegExp regexp_alpha_beta_g) PUndefined MaxUndefined"
  have hB: "componentOptions node_B = Some ?coB \<and> vnode_data node_B = Some ?d"
    by (simp add: example_defs eval_defs)
  have hA: "componentOptions node_A = Some ?coA \<and> vnode_data node_A = Some ?d"
    by (simp add: example_defs eval_defs)
  have hs: "stateless (include_prop ?s) \<and> stateless (exclude_prop ?s)"
    by (simp add: created_def)
  have nm: "local_getComponentName (Some ?coA) = Some ''Alpha''"
    "local_getComponentName (Some ?coB) = Some ''Beta''"
    by (simp_all add: eval_defs)
  have st: "include_prop ?s = ?inc" "exclude_prop ?s = PUndefined" "lastIndex ?s = (\<lambda>a. 0)"
    "cache ?s = []"
    by (simp_all add: created_def)
  have key: "vnode_cache_key node_A ?coA = ''A''"
    by (simp add: example_defs eval_defs)
  have m: "spec_matches ?inc ''Gamma'' (\<lambda>a. 0)"
    using admissibility_decision[THEN conjunct1, of ?inc "''Gamma''" "\<lambda>a. 0"] by simp
  have nB: "\<not> amended_isAdmissible (Some ''Beta'') ?inc PUndefined (\<lambda>a. 0)"
    using admissibility_decision[THEN conjunct2, THEN conjunct1,
        of "Some ''Beta''" ?inc PUndefined "\<lambda>a. 0"]
    by (simp add: eval_defs)
  have yA: "amended_isAdmissible (Some ''Alpha'') ?inc PUndefined (\<lambda>a. 0)"
    using admissibility_decision[THEN conjunct2, THEN conjunct1,
        of "Some ''Alpha''" ?inc PUndefined "\<lambda>a. 0"]
    by (simp add: eval_defs)
  have aB: "\<not> amended_isAdmissible (local_getComponentName (Some ?coB))
               (include_prop ?s) (exclude_prop ?s) (lastIndex ?s)"
    unfolding nm st by (rule nB)
  have aA: "amended_isAdmissible (local_getComponentName (Some ?coA))
               (include_prop ?s) (exclude_prop ?s) (lastIndex ?s)"
    unfolding nm st by (rule yA)
  have miss: "obj_get (cache ?s) (vnode_cache_key node_A ?coA) = None"
    by (simp add: st obj_get_def)
  have "\<exists>h'. (stateless (include_prop ?s) \<and> stateless (exclude_prop ?s) \<longrightarrow> h' = lastIndex ?s)
          \<and> render (Some node_B) None ?s = Inr (Some node_B, ?s\<lparr>lastIndex := h'\<rparr>)"
    using admissibility_decision[THEN conjunct2, THEN conjunct2, THEN mp, OF hB, of ?s None]
    by (simp only: aB if_False)
  then obtain h1 where "h1 = lastIndex ?s"
    and "render (Some node_B) None ?s = Inr (Some node_B, ?s\<lparr>lastIndex := h1\<rparr>)"
    using hs by blast
  then have rB: "render (Some node_B) None ?s = Inr (Some node_B, ?s)" by simp
  have "\<exists>h'. (stateless (include_prop ?s) \<and> stateless (exclude_prop ?s) \<longrightarrow> h' = lastIndex ?s)
          \<and> render (Some node_A) None ?s
              = Inr (Some (node_A\<lparr>vnode_data := Some (?d\<lparr>keepAlive := True\<rparr>)\<rparr>),
                     ?s\<lparr>vnodeToCache := Some (node_A\<lparr>vnode_data := Some (?d\<lparr>keepAlive := True\<rparr>)\<rparr>),
                        keyToCache := Some (vnode_cache_key node_A ?coA), lastIndex := h'\<rparr>)"
    using admissibility_decision[THEN conjunct2, THEN conjunct2, THEN mp, OF hA, of ?s None]
    by (simp only: aA if_True miss option.case)
  then obtain h2 where "h2 = lastIndex ?s"
    and "render (Some node_A) None ?s
              = Inr (Some (node_A\<lparr>vnode_data := Some (?d\<lparr>keepAlive := True\<rparr>)\<rparr>),
                     ?s\<lparr>vnodeToCache := Some (node_A\<lparr>vnode_data := Some (?d\<lparr>keepAlive := True\<rparr>)\<rparr>),
                        keyToCache := Some (vnode_cache_key node_A ?coA), lastIndex := h2\<rparr>)"
    using hs by blast
  then have rA: "render (Some node_A) None ?s
       = Inr (Some (node_A\<lparr>vnode_data := Some \<lparr>keepAlive = True\<rparr>\<rparr>),
              ?s\<lparr>vnodeToCache := Some (node_A\<lparr>vnode_data := Some \<lparr>keepAlive = True\<rparr>\<rparr>),
                 keyToCache := Some ''A''\<rparr>)"
    unfolding key by simp
  have g0: "amended_isAdmissible (Some ''Beta'') (PRegExp regexp_alpha_beta_g) PUndefined (\<lambda>a. 0)"
    by (simp add: amended_isAdmissible_def is_set_def present_def regexp_test_def
        regexp_alpha_beta_g_def)
  have g5: "\<not> amended_isAdmissible (Some ''Beta'') (PRegExp regexp_alpha_beta_g) PUndefined (\<lambda>a. 5)"
    by (simp add: amended_isAdmissible_def is_set_def present_def regexp_test_def
        regexp_alpha_beta_g_def)
  have a5: "\<not> amended_isAdmissible (local_getComponentName (Some ?coB))
               (include_prop (?r\<lparr>lastIndex := (\<lambda>a. 5)\<rparr>)) (exclude_prop (?r\<lparr>lastIndex := (\<lambda>a. 5)\<rparr>))
               (lastIndex (?r\<lparr>lastIndex := (\<lambda>a. 5)\<rparr>))"
    using g5 unfolding nm by (simp add: created_def)
  have rg: "\<exists>h'. render (Some node_B) None (?r\<lparr>lastIndex := (\<lambda>a. 5)\<rparr>)
              = Inr (Some node_B, ?r\<lparr>lastIndex := h'\<rparr>)"
    using admissibility_decision[THEN conjunct2, THEN conjunct2, THEN mp, OF hB,
      of "?r\<lparr>lastIndex := (\<lambda>a. 5)\<rparr>" None]
    by (auto simp only: a5 if_False) (auto simp: created_def)
  show ?thesis
    by (rule conjI[OF hB conjI[OF hA conjI[OF hs conjI[OF m conjI[OF nB conjI[OF rB
          conjI[OF yA conjI[OF rA conjI[OF g0 conjI[OF g5 rg]]]]]]]]]])
qed

subsection \<open>C7: teardown\<close>

lemma store_ABC_reached:
  "host_ok_run (admit_all [(node_A, 1), (node_B, 2), (node_C, 3)])
     (created PUndefined PUndefined MaxUndefined)
   \<and> run (admit_all [(node_A, 1), (node_B, 2), (node_C, 3)])
       (created PUndefined PUndefined MaxUndefined) = Inr store_ABC"
  by (simp add: store_ABC_def example_defs eval_defs)

lemma count_list_distinct: "distinct xs \<Longrightarrow> count_list xs x = (if x \<in> set xs then 1 else 0)"
  by (induction xs) auto

lemma teardown_exact:
  assumes inv: "store_inv s"
  shows "\<exists>s' new. destroyed s = Inr s' \<and> destroyed_log s' = destroyed_log s @ new
        \<and> (\<forall>c. count_list new c =
               (if (\<exists>k e. obj_get (cache s) k = Some e \<and> componentInstance e = Some c) then 1 else 0))
        \<and> (\<forall>k. obj_get (cache s') k = None) \<and> keys s' = []
        \<and> destroyed s' = Inr s'"
proof -
  let ?new = "destroy_calls (\<lambda>e. True) None (cache s) (for_in_keys (cache s))"
  have ci: "cache_inv s" using inv by (simp add: store_inv_def)
  from destroyed_result[OF ci] obtain s' where
    s': "destroyed s = Inr s'" "cache_inv s'" "\<And>k. obj_get (cache s') k = None" "keys s' = []"
      "destroyed_log s' = destroyed_log s @ ?new" "destroyed s' = Inr s'"
    by blast
  have "distinct (destroyed_log s')" by (rule cache_inv_log[OF s'(2)])
  then have d: "distinct ?new" by (simp add: s'(5))
  have mem: "c \<in> set ?new \<longleftrightarrow> (\<exists>k e. obj_get (cache s) k = Some e \<and> componentInstance e = Some c)" for c
  proof
    assume "c \<in> set ?new"
    then show "\<exists>k e. obj_get (cache s) k = Some e \<and> componentInstance e = Some c"
      unfolding destroy_calls_mem by blast
  next
    assume "\<exists>k e. obj_get (cache s) k = Some e \<and> componentInstance e = Some c"
    then obtain k e where ke: "obj_get (cache s) k = Some e" "componentInstance e = Some c" by blast
    have "k \<in> set (for_in_keys (cache s))" using obj_get_in[OF ke(1)] by simp
    then show "c \<in> set ?new"
      unfolding destroy_calls_mem using ke by (auto simp: must_destroy_def)
  qed
  have cnt: "count_list ?new c =
               (if (\<exists>k e. obj_get (cache s) k = Some e \<and> componentInstance e = Some c) then 1 else 0)" for c
    unfolding count_list_distinct[OF d] mem ..
  from s'(1,3,4,5,6) cnt show ?thesis by blast
qed

text \<open>
  C7. In any state the store can reach, whatever the current node, \<open>destroyed()\<close> ends
  normally; the \<open>$destroy()\<close> calls it makes are one for every instance still held and none
  else; afterwards no key holds an entry and \<open>keys\<close> is empty; and a second \<open>destroyed()\<close>
  returns the same state, so it calls nothing and changes nothing.
\<close>

theorem teardown_destroys_everything_once:
  "host_ok_run ops (created inc exc m) \<and> run ops (created inc exc m) = Inr s \<longrightarrow>
     (\<exists>s' new. destroyed s = Inr s' \<and> destroyed_log s' = destroyed_log s @ new
        \<and> (\<forall>c. count_list new c =
               (if (\<exists>k e. obj_get (cache s) k = Some e \<and> componentInstance e = Some c) then 1 else 0))
        \<and> (\<forall>k. obj_get (cache s') k = None) \<and> keys s' = []
        \<and> destroyed s' = Inr s')"
  using teardown_exact reach_inv by blast

theorem teardown_destroys_everything_once_witness:
  "(host_ok_run ops_AB_staged_C (created PUndefined PUndefined (MaxNumber 2))
      \<and> run ops_AB_staged_C (created PUndefined PUndefined (MaxNumber 2)) = Inr store_AB_staged_C)
   \<and> (\<exists>s' new. destroyed store_AB_staged_C = Inr s' \<and> destroyed_log s' = new
          \<and> count_list new 1 = 1 \<and> count_list new 2 = 1 \<and> count_list new 3 = 0
          \<and> keys s' = [] \<and> destroyed s' = Inr s')"
proof -
  let ?s = store_AB_staged_C
  have h: "host_ok_run ops_AB_staged_C (created PUndefined PUndefined (MaxNumber 2))
      \<and> run ops_AB_staged_C (created PUndefined PUndefined (MaxNumber 2)) = Inr ?s"
    by (rule store_AB_staged_C_reached)
  from teardown_destroys_everything_once[where ops = ops_AB_staged_C and inc = PUndefined
      and exc = PUndefined and m = "MaxNumber 2" and s = ?s, THEN mp, OF h]
  obtain s' new where
    t: "destroyed ?s = Inr s'" "destroyed_log s' = destroyed_log ?s @ new"
      "\<And>c. count_list new c =
               (if (\<exists>k e. obj_get (cache ?s) k = Some e \<and> componentInstance e = Some c) then 1 else 0)"
      "keys s' = []" "destroyed s' = Inr s'"
    by blast
  have st: "obj_get (cache ?s) ''A''
              = Some \<lparr>name = Some ''Alpha'', tag = Some ''tag-a'', componentInstance = Some 1\<rparr>"
    "obj_get (cache ?s) ''B''
              = Some \<lparr>name = Some ''Beta'', tag = Some ''tag-b'', componentInstance = Some 2\<rparr>"
    "destroyed_log ?s = []"
    by (simp_all add: store_AB_staged_C_def store_AB_def eval_defs)
  have "\<exists>k e. obj_get (cache ?s) k = Some e \<and> componentInstance e = Some 1"
    using st(1) by (intro exI[of _ "''A''"]) simp
  then have c1: "count_list new 1 = 1" by (simp add: t(3))
  have "\<exists>k e. obj_get (cache ?s) k = Some e \<and> componentInstance e = Some 2"
    using st(2) by (intro exI[of _ "''B''"]) simp
  then have c2: "count_list new 2 = 1" by (simp add: t(3))
  have "\<not> (\<exists>k e. obj_get (cache ?s) k = Some e \<and> componentInstance e = Some 3)"
    by (auto simp: store_AB_staged_C_def store_AB_def obj_get_def split: if_splits)
  then have c3: "count_list new 3 = 0" by (simp add: t(3))
  from h t(1,2,4,5) c1 c2 c3 show ?thesis by (simp add: st(3))
qed

subsection \<open>C8: staging and commit\<close>

lemma run_shrinks:
  assumes "store_inv s" and "host_ok_run ops s" and "list_all (\<lambda>x. x \<noteq> CacheVNode) ops"
  shows "\<exists>s'. run ops s = Inr s' \<and> store_inv s' \<and> shrinks s s'"
  using assms
proof (induction ops arbitrary: s)
  case Nil
  then show ?case by (simp add: shrinks_refl)
next
  case (Cons x xs)
  from Cons.prems(2,3) have ok: "host_ok s x" and nc: "x \<noteq> CacheVNode" by simp_all
  from step_inv[OF Cons.prems(1) ok] nc obtain s1 where
    s1: "step x s = Inr s1" "store_inv s1" "shrinks s s1" by blast
  from Cons.prems(2,3) s1(1) have "host_ok_run xs s1" "list_all (\<lambda>x. x \<noteq> CacheVNode) xs"
    by simp_all
  from Cons.IH[OF s1(2) this] obtain s' where
    s': "run xs s1 = Inr s'" "store_inv s'" "shrinks s1 s'" by blast
  from s1(1) s'(1,2) shrinks_trans[OF s1(3) s'(3)] show ?case by (simp add: run_Cons)
qed

lemma uncommitted_stays_out:
  assumes reach: "host_ok_run ops (created inc exc m)" "run ops (created inc exc m) = Inr s"
    and ok: "host_ok_run ops2 s" and nc: "list_all (\<lambda>x. x \<noteq> CacheVNode) ops2"
  shows "\<exists>s'. run ops2 s = Inr s' \<and> length (keys s') \<le> length (keys s)
           \<and> (\<forall>k. obj_get (cache s) k = None \<longrightarrow> obj_get (cache s') k = None \<and> k \<notin> set (keys s'))"
proof -
  have inv: "store_inv s" by (rule reach_inv[OF reach])
  from run_shrinks[OF inv ok nc] obtain s' where
    s': "run ops2 s = Inr s'" "store_inv s'" "shrinks s s'" by blast
  have ci': "cache_inv s'" using s'(2) by (simp add: store_inv_def)
  have mono: "\<And>k e. obj_get (cache s') k = Some e \<Longrightarrow> obj_get (cache s) k = Some e"
    and len: "length (keys s') \<le> length (keys s)"
    using s'(3) unfolding shrinks_def by blast+
  have out: "obj_get (cache s') k = None \<and> k \<notin> set (keys s')" if "obj_get (cache s) k = None" for k
  proof -
    have n: "obj_get (cache s') k = None"
    proof (cases "obj_get (cache s') k")
      case (Some e)
      from mono[OF this] that show ?thesis by simp
    qed simp
    then show ?thesis using cache_inv_keys[OF ci', of k] by simp
  qed
  from s'(1) len out show ?thesis by blast
qed

text \<open>
  C8. (1) A render that misses only assigns \<open>vnodeToCache\<close> and \<open>keyToCache\<close>: \<open>cache\<close>,
  \<open>keys\<close>, \<open>max\<close> and the trace of \<open>$destroy()\<close> calls are as before. (2) From any state the
  store can reach, a run of operations without \<open>cacheVNode\<close> ends with no more keys in
  \<open>keys\<close> than before, and a key that held no entry, such as that of a staged candidate,
  still holds none and is not in \<open>keys\<close>. (3) \<open>cacheVNode\<close> with nothing staged returns the
  state as it is.
\<close>

theorem staging_leaves_store_unchanged:
  "(cacheable (include_prop s) (exclude_prop s) v \<and> obj_get (cache s) (cache_key v) = None
      \<longrightarrow> (\<exists>v1. render (Some v) slot0 s
                  = Inr (Some v1, s\<lparr>vnodeToCache := Some v1, keyToCache := Some (cache_key v)\<rparr>)))
   \<and> (host_ok_run ops (created inc exc m) \<and> run ops (created inc exc m) = Inr s
        \<and> host_ok_run ops2 s \<and> list_all (\<lambda>x. x \<noteq> CacheVNode) ops2
      \<longrightarrow> (\<exists>s'. run ops2 s = Inr s' \<and> length (keys s') \<le> length (keys s)
             \<and> (\<forall>k. obj_get (cache s) k = None
                    \<longrightarrow> obj_get (cache s') k = None \<and> k \<notin> set (keys s'))))
   \<and> (vnodeToCache s = None \<longrightarrow> cacheVNode s = Inr s)"
proof (intro conjI impI)
  assume "cacheable (include_prop s) (exclude_prop s) v \<and> obj_get (cache s) (cache_key v) = None"
  then show "\<exists>v1. render (Some v) slot0 s
                  = Inr (Some v1, s\<lparr>vnodeToCache := Some v1, keyToCache := Some (cache_key v)\<rparr>)"
    using render_miss_cacheable[of s v slot0] by blast
next
  assume "host_ok_run ops (created inc exc m) \<and> run ops (created inc exc m) = Inr s
        \<and> host_ok_run ops2 s \<and> list_all (\<lambda>x. x \<noteq> CacheVNode) ops2"
  then show "\<exists>s'. run ops2 s = Inr s' \<and> length (keys s') \<le> length (keys s)
             \<and> (\<forall>k. obj_get (cache s) k = None
                    \<longrightarrow> obj_get (cache s') k = None \<and> k \<notin> set (keys s'))"
    using uncommitted_stays_out[of ops inc exc m s ops2] by blast
next
  assume "vnodeToCache s = None"
  then show "cacheVNode s = Inr s" by (rule cacheVNode_none)
qed

theorem staging_leaves_store_unchanged_witness:
  "(cacheable (include_prop store_AB) (exclude_prop store_AB) node_C
      \<and> obj_get (cache store_AB) (cache_key node_C) = None)
   \<and> (host_ok_run (admit_ops node_A 1 @ admit_ops node_B 2) (created PUndefined PUndefined (MaxNumber 2))
      \<and> run (admit_ops node_A 1 @ admit_ops node_B 2) (created PUndefined PUndefined (MaxNumber 2))
           = Inr store_AB
      \<and> host_ok_run [Render (Some node_C) None, HostPatch 3, WatchExclude (PString ''Beta'')] store_AB
      \<and> list_all (\<lambda>x. x \<noteq> CacheVNode)
           [Render (Some node_C) None, HostPatch 3, WatchExclude (PString ''Beta'')])
   \<and> vnodeToCache store_AB = None
   \<and> (\<exists>v1. render (Some node_C) None store_AB
              = Inr (Some v1, store_AB\<lparr>vnodeToCache := Some v1, keyToCache := Some ''C''\<rparr>))
   \<and> (\<exists>s'. run [Render (Some node_C) None, HostPatch 3, WatchExclude (PString ''Beta'')] store_AB
              = Inr s'
          \<and> length (keys s') \<le> 2 \<and> obj_get (cache s') ''C'' = None \<and> ''C'' \<notin> set (keys s'))
   \<and> cacheVNode store_AB = Inr store_AB"
proof -
  let ?rest = "[Render (Some node_C) None, HostPatch 3, WatchExclude (PString ''Beta'')]"
  have h1: "cacheable (include_prop store_AB) (exclude_prop store_AB) node_C
      \<and> obj_get (cache store_AB) (cache_key node_C) = None"
    by (simp add: store_AB_def example_defs eval_defs)
  have h2: "host_ok_run (admit_ops node_A 1 @ admit_ops node_B 2) (created PUndefined PUndefined (MaxNumber 2))
      \<and> run (admit_ops node_A 1 @ admit_ops node_B 2) (created PUndefined PUndefined (MaxNumber 2))
           = Inr store_AB
      \<and> host_ok_run ?rest store_AB
      \<and> list_all (\<lambda>x. x \<noteq> CacheVNode) ?rest"
    using store_AB_reached by (simp add: store_AB_def example_defs eval_defs)
  have h3: "vnodeToCache store_AB = None" by (simp add: store_AB_def)
  note t = staging_leaves_store_unchanged[where s = store_AB and v = node_C and ?slot0.0 = None
      and ops = "admit_ops node_A 1 @ admit_ops node_B 2" and inc = PUndefined and exc = PUndefined
      and m = "MaxNumber 2" and ?ops2.0 = ?rest]
  have k: "cache_key node_C = ''C''" "length (keys store_AB) = 2"
    "obj_get (cache store_AB) ''C'' = None"
    by (simp_all add: store_AB_def example_defs eval_defs)
  from t[THEN conjunct1, THEN mp, OF h1]
  have c1: "\<exists>v1. render (Some node_C) None store_AB
              = Inr (Some v1, store_AB\<lparr>vnodeToCache := Some v1, keyToCache := Some ''C''\<rparr>)"
    unfolding k .
  from t[THEN conjunct2, THEN conjunct1, THEN mp, OF h2] obtain s' where
    r: "run ?rest store_AB = Inr s'" "length (keys s') \<le> length (keys store_AB)"
       "\<And>k. obj_get (cache store_AB) k = None \<Longrightarrow> obj_get (cache s') k = None \<and> k \<notin> set (keys s')"
    by blast
  have c2: "\<exists>s'. run ?rest store_AB = Inr s'
          \<and> length (keys s') \<le> 2 \<and> obj_get (cache s') ''C'' = None \<and> ''C'' \<notin> set (keys s')"
    using r(1) r(2) r(3)[OF k(3)] unfolding k(2) by blast
  from t[THEN conjunct2, THEN conjunct2, THEN mp, OF h3]
  have c3: "cacheVNode store_AB = Inr store_AB" .
  from h1 h2 h3 c1 c2 c3 show ?thesis by blast
qed

subsection \<open>C9: pruning one key\<close>

lemma prune_exact:
  assumes inv: "store_inv s"
  shows "\<exists>s'. pruneCacheEntry key cur s = Inr s'
           \<and> obj_get (cache s') key = None \<and> key \<notin> set (keys s')
           \<and> keys s' = filter (\<lambda>k. k \<noteq> key) (keys s)
           \<and> (\<forall>k. k \<noteq> key \<longrightarrow> obj_get (cache s') k = obj_get (cache s) k)
           \<and> (obj_get (cache s) key = None
                \<longrightarrow> keys s' = keys s \<and> destroyed_log s' = destroyed_log s
                    \<and> (\<forall>k. obj_get (cache s') k = obj_get (cache s) k))"
proof -
  have ci: "cache_inv s" using inv by (simp add: store_inv_def)
  from pruneCacheEntry_ok[OF ci] obtain s' where s': "pruneCacheEntry key cur s = Inr s'" by blast
  have c: "cache s' = obj_set (cache s) key None"
    using s'[symmetric]
    by (cases "obj_get (cache s) key")
       (auto simp: pruneCacheEntry_eq split: if_splits option.splits)
  have k: "keys s' = filter (\<lambda>k. k \<noteq> key) (keys s)"
    using pruneCacheEntry_keys[OF s'] remove1_filter[OF cache_inv_distinct[OF ci]] by simp
  have noop: "keys s' = keys s \<and> destroyed_log s' = destroyed_log s
                    \<and> (\<forall>k. obj_get (cache s') k = obj_get (cache s) k)"
    if n: "obj_get (cache s) key = None"
  proof -
    have "key \<notin> set (keys s)" using cache_inv_keys[OF ci, of key] n by simp
    then have "keys s' = keys s" using k by (simp add: filter_neq_id)
    moreover have "destroyed_log s' = destroyed_log s"
      using s'[symmetric] n by (simp add: pruneCacheEntry_eq)
    moreover have "obj_get (cache s') k = obj_get (cache s) k" for k
      using n by (simp add: c)
    ultimately show ?thesis by blast
  qed
  from s' k noop show ?thesis by (simp add: c)
qed

text \<open>
  C9. In any state the store can reach and for any current node, \<open>pruneCacheEntry\<close> on a
  key ends normally; afterwards the key holds no entry and is not in \<open>keys\<close>, \<open>keys\<close> is the
  old order without that key, and every other key holds what it held. When the key held
  no entry, \<open>keys\<close>, the entries and the trace of \<open>$destroy()\<close> calls are all unchanged.
\<close>

theorem prune_removes_one_key:
  "host_ok_run ops (created inc exc m) \<and> run ops (created inc exc m) = Inr s \<longrightarrow>
     (\<exists>s'. pruneCacheEntry key cur s = Inr s'
        \<and> obj_get (cache s') key = None \<and> key \<notin> set (keys s')
        \<and> keys s' = filter (\<lambda>k. k \<noteq> key) (keys s)
        \<and> (\<forall>k. k \<noteq> key \<longrightarrow> obj_get (cache s') k = obj_get (cache s) k)
        \<and> (obj_get (cache s) key = None
             \<longrightarrow> keys s' = keys s \<and> destroyed_log s' = destroyed_log s
                 \<and> (\<forall>k. obj_get (cache s') k = obj_get (cache s) k)))"
  using prune_exact reach_inv by blast

theorem prune_removes_one_key_witness:
  "(host_ok_run (admit_all [(node_A, 1), (node_B, 2), (node_C, 3)])
       (created PUndefined PUndefined MaxUndefined)
      \<and> run (admit_all [(node_A, 1), (node_B, 2), (node_C, 3)])
           (created PUndefined PUndefined MaxUndefined) = Inr store_ABC)
   \<and> (\<exists>s'. pruneCacheEntry ''B'' None store_ABC = Inr s'
          \<and> obj_get (cache s') ''B'' = None \<and> keys s' = [''A'', ''C'']
          \<and> obj_get (cache s') ''A'' = obj_get (cache store_ABC) ''A''
          \<and> obj_get (cache s') ''C'' = obj_get (cache store_ABC) ''C'')
   \<and> obj_get (cache store_ABC) ''D'' = None
   \<and> (\<exists>s'. pruneCacheEntry ''D'' None store_ABC = Inr s'
          \<and> keys s' = keys store_ABC \<and> destroyed_log s' = destroyed_log store_ABC
          \<and> (\<forall>k. obj_get (cache s') k = obj_get (cache store_ABC) k))"
proof -
  have h: "host_ok_run (admit_all [(node_A, 1), (node_B, 2), (node_C, 3)])
       (created PUndefined PUndefined MaxUndefined)
      \<and> run (admit_all [(node_A, 1), (node_B, 2), (node_C, 3)])
           (created PUndefined PUndefined MaxUndefined) = Inr store_ABC"
    by (rule store_ABC_reached)
  note t = prune_removes_one_key[where ops = "admit_all [(node_A, 1), (node_B, 2), (node_C, 3)]"
      and inc = PUndefined and exc = PUndefined and m = MaxUndefined and s = store_ABC
      and cur = None, THEN mp, OF h]
  have k: "keys store_ABC = [''A'', ''B'', ''C'']" "obj_get (cache store_ABC) ''D'' = None"
    by (simp_all add: store_ABC_def obj_get_def)
  from t[of "''B''"] obtain s1 where
    b: "pruneCacheEntry ''B'' None store_ABC = Inr s1" "obj_get (cache s1) ''B'' = None"
       "keys s1 = filter (\<lambda>k. k \<noteq> ''B'') (keys store_ABC)"
       "\<And>k. k \<noteq> ''B'' \<Longrightarrow> obj_get (cache s1) k = obj_get (cache store_ABC) k"
    by blast
  have c1: "\<exists>s'. pruneCacheEntry ''B'' None store_ABC = Inr s'
          \<and> obj_get (cache s') ''B'' = None \<and> keys s' = [''A'', ''C'']
          \<and> obj_get (cache s') ''A'' = obj_get (cache store_ABC) ''A''
          \<and> obj_get (cache s') ''C'' = obj_get (cache store_ABC) ''C''"
    using b(1,2) b(3)[unfolded k(1)] b(4)[of "''A''"] b(4)[of "''C''"] by simp
  from t[of "''D''"] k(2)
  have c2: "\<exists>s'. pruneCacheEntry ''D'' None store_ABC = Inr s'
          \<and> keys s' = keys store_ABC \<and> destroyed_log s' = destroyed_log store_ABC
          \<and> (\<forall>k. obj_get (cache s') k = obj_get (cache store_ABC) k)"
    by blast
  from h c1 k(2) c2 show ?thesis by blast
qed

subsection \<open>C10: the null property left by a removal\<close>

lemma map_of_delete_property: "map_of (delete_property key c) key = None"
  by (induction c) (auto simp: delete_property_def)

lemma obj_get_delete_property: "obj_get (delete_property key c) key = None"
  by (simp add: obj_get_def map_of_delete_property)

lemma pruneCacheEntry_tombstone:
  assumes "pruneCacheEntry key cur s0 = Inr s"
  shows "map_of (cache s) key = Some None"
proof -
  have c: "cache s = obj_set (cache s0) key None"
    using assms[symmetric]
    by (cases "obj_get (cache s0) key")
       (auto simp: pruneCacheEntry_eq split: if_splits option.splits)
  have "map_of (obj_set cm key None) key = Some None" for cm :: CacheEntryMap
    by (induction cm key "None :: CacheEntry option" rule: obj_set.induct) auto
  then show ?thesis by (simp add: c)
qed

text \<open>
  C10. Every removal goes through \<open>pruneCacheEntry\<close>, which leaves the property of the key
  in \<open>cache\<close> with the value \<open>null\<close>. In a state where the key of a cacheable node has such a
  property, \<open>render\<close> misses: it hands the node back with the instance it came with, leaves
  \<open>keys\<close> and \<open>cache\<close> as they are and stages the node under its key. On the state whose
  \<open>cache\<close> lacks the property altogether it returns the same node and assigns the same
  fields.
\<close>

theorem tombstone_reads_as_absent:
  "(pruneCacheEntry key cur s0 = Inr s1 \<longrightarrow> map_of (cache s1) key = Some None)
   \<and> (map_of (cache s) (cache_key v) = Some None \<and> cacheable (include_prop s) (exclude_prop s) v
      \<longrightarrow> (\<exists>v1. vnode_componentInstance v1 = vnode_componentInstance v
             \<and> render (Some v) slot0 s
                 = Inr (Some v1, s\<lparr>vnodeToCache := Some v1, keyToCache := Some (cache_key v)\<rparr>)
             \<and> map_of (delete_property (cache_key v) (cache s)) (cache_key v) = None
             \<and> render (Some v) slot0 (s\<lparr>cache := delete_property (cache_key v) (cache s)\<rparr>)
                 = Inr (Some v1, s\<lparr>cache := delete_property (cache_key v) (cache s),
                                    vnodeToCache := Some v1, keyToCache := Some (cache_key v)\<rparr>)))"
proof (intro conjI impI)
  assume "pruneCacheEntry key cur s0 = Inr s1"
  then show "map_of (cache s1) key = Some None" by (rule pruneCacheEntry_tombstone)
next
  assume a: "map_of (cache s) (cache_key v) = Some None \<and> cacheable (include_prop s) (exclude_prop s) v"
  let ?v1 = "v\<lparr>vnode_data := map_option (\<lambda>d. d\<lparr>keepAlive := True\<rparr>) (vnode_data v)\<rparr>"
  let ?d = "s\<lparr>cache := delete_property (cache_key v) (cache s)\<rparr>"
  from a have wf: "cacheable (include_prop s) (exclude_prop s) v"
    and n: "obj_get (cache s) (cache_key v) = None"
    by (simp_all add: obj_get_def)
  have wfd: "cacheable (include_prop ?d) (exclude_prop ?d) v" using wf by simp
  have nd: "obj_get (cache ?d) (cache_key v) = None" by (simp add: obj_get_delete_property)
  have r1: "render (Some v) slot0 s
              = Inr (Some ?v1, s\<lparr>vnodeToCache := Some ?v1, keyToCache := Some (cache_key v)\<rparr>)"
    by (rule render_miss_cacheable[OF wf n])
  have r2: "render (Some v) slot0 ?d
              = Inr (Some ?v1, s\<lparr>cache := delete_property (cache_key v) (cache s),
                                 vnodeToCache := Some ?v1, keyToCache := Some (cache_key v)\<rparr>)"
    using render_miss_cacheable[OF wfd nd, of slot0] by simp
  show "\<exists>v1. vnode_componentInstance v1 = vnode_componentInstance v
             \<and> render (Some v) slot0 s
                 = Inr (Some v1, s\<lparr>vnodeToCache := Some v1, keyToCache := Some (cache_key v)\<rparr>)
             \<and> map_of (delete_property (cache_key v) (cache s)) (cache_key v) = None
             \<and> render (Some v) slot0 (s\<lparr>cache := delete_property (cache_key v) (cache s)\<rparr>)
                 = Inr (Some v1, s\<lparr>cache := delete_property (cache_key v) (cache s),
                                    vnodeToCache := Some v1, keyToCache := Some (cache_key v)\<rparr>)"
    using r1 r2 map_of_delete_property[of "cache_key v" "cache s"]
    by (intro exI[of _ ?v1]) simp
qed

theorem tombstone_reads_as_absent_witness:
  "pruneCacheEntry ''B'' None store_ABC = Inr store_ABC_pruned_B
   \<and> (map_of (cache store_ABC_pruned_B) (cache_key node_B) = Some None
      \<and> cacheable (include_prop store_ABC_pruned_B) (exclude_prop store_ABC_pruned_B) node_B)
   \<and> map_of (cache store_ABC_pruned_B) ''B'' = Some None
   \<and> (\<exists>v1. vnode_componentInstance v1 = None
          \<and> render (Some node_B) None store_ABC_pruned_B
               = Inr (Some v1, store_ABC_pruned_B\<lparr>vnodeToCache := Some v1, keyToCache := Some ''B''\<rparr>)
          \<and> render (Some node_B) None
                 (store_ABC_pruned_B\<lparr>cache := delete_property ''B'' (cache store_ABC_pruned_B)\<rparr>)
               = Inr (Some v1, store_ABC_pruned_B\<lparr>cache := delete_property ''B'' (cache store_ABC_pruned_B),
                                                  vnodeToCache := Some v1, keyToCache := Some ''B''\<rparr>))"
proof -
  let ?s = store_ABC_pruned_B
  have h1: "pruneCacheEntry ''B'' None store_ABC = Inr ?s"
    by (simp add: store_ABC_pruned_B_def store_ABC_def eval_defs)
  have h2: "map_of (cache ?s) (cache_key node_B) = Some None
      \<and> cacheable (include_prop ?s) (exclude_prop ?s) node_B"
    by (simp add: store_ABC_pruned_B_def store_ABC_def example_defs eval_defs)
  note t = tombstone_reads_as_absent[where key = "''B''" and cur = None and ?s0.0 = store_ABC
      and ?s1.0 = ?s and s = ?s and v = node_B and ?slot0.0 = None]
  have k: "cache_key node_B = ''B''" "vnode_componentInstance node_B = None"
    by (simp_all add: example_defs eval_defs)
  from t[THEN conjunct1, THEN mp, OF h1] have c1: "map_of (cache ?s) ''B'' = Some None" .
  from t[THEN conjunct2, THEN mp, OF h2]
  have c2: "\<exists>v1. vnode_componentInstance v1 = None
          \<and> render (Some node_B) None ?s
               = Inr (Some v1, ?s\<lparr>vnodeToCache := Some v1, keyToCache := Some ''B''\<rparr>)
          \<and> render (Some node_B) None (?s\<lparr>cache := delete_property ''B'' (cache ?s)\<rparr>)
               = Inr (Some v1, ?s\<lparr>cache := delete_property ''B'' (cache ?s),
                                  vnodeToCache := Some v1, keyToCache := Some ''B''\<rparr>)"
    unfolding k by blast
  from h1 h2 c1 c2 show ?thesis by blast
qed

end
